theory Spec2Isabelle
  imports Main "HOL-Library.Multiset"
begin

section \<open>Strings of the JavaScript runtime\<close>

text \<open>
  A JavaScript string is modelled as a \<^typ>\<open>string\<close>, one \<^typ>\<open>char\<close> per code unit;
  code units above U+00FF are outside the model. A value that may be \<open>undefined\<close> is an
  option, \<open>None\<close> standing for \<open>undefined\<close>.
\<close>

definition is_digit :: "char \<Rightarrow> bool" where
  \<comment> \<open>the class \<open>\d\<close>\<close>
  "is_digit c = (48 \<le> (of_char c :: nat) \<and> (of_char c :: nat) \<le> 57)"

definition is_alpha :: "char \<Rightarrow> bool" where
  \<comment> \<open>the class \<open>[a-zA-Z]\<close>\<close>
  "is_alpha c = ((65 \<le> (of_char c :: nat) \<and> (of_char c :: nat) \<le> 90) \<or>
                 (97 \<le> (of_char c :: nat) \<and> (of_char c :: nat) \<le> 122))"

definition is_alnum :: "char \<Rightarrow> bool" where
  \<comment> \<open>the class \<open>[a-zA-Z0-9]\<close>\<close>
  "is_alnum c = (is_alpha c \<or> is_digit c)"

definition is_word :: "char \<Rightarrow> bool" where
  \<comment> \<open>the class \<open>\w\<close>, which decides where \<open>\b\<close> holds\<close>
  "is_word c = (is_alnum c \<or> c = CHR ''_'')"

definition is_line_terminator :: "char \<Rightarrow> bool" where
  \<comment> \<open>the code units that \<open>.\<close> does not match (no \<open>s\<close> flag): LF and CR\<close>
  "is_line_terminator c = ((of_char c :: nat) = 10 \<or> (of_char c :: nat) = 13)"

definition is_space :: "char \<Rightarrow> bool" where
  \<comment> \<open>white space and line terminators, as \<open>String.prototype.trim\<close> and \<open>\s\<close> see them:
      TAB, LF, VT, FF, CR, SP, NBSP\<close>
  "is_space c = ((9 \<le> (of_char c :: nat) \<and> (of_char c :: nat) \<le> 13) \<or>
                 (of_char c :: nat) = 32 \<or> (of_char c :: nat) = 160)"

definition trim :: "string \<Rightarrow> string" where
  "trim s = rev (dropWhile is_space (rev (dropWhile is_space s)))"

definition truthy :: "string option \<Rightarrow> bool" where
  \<comment> \<open>JavaScript truthiness of a string or \<open>undefined\<close>\<close>
  "truthy v = (case v of None \<Rightarrow> False | Some s \<Rightarrow> s \<noteq> [])"

fun split_on :: "char \<Rightarrow> string \<Rightarrow> string list" where
  "split_on c [] = [] # []"
| "split_on c (x # xs) =
     (if x = c then [] # split_on c xs
      else (case split_on c xs of [] \<Rightarrow> [x] # [] | y # ys \<Rightarrow> (x # y) # ys))"

definition split_first :: "char \<Rightarrow> string \<Rightarrow> string \<times> string option" where
  \<comment> \<open>the text before the first occurrence of \<open>c\<close>, and the text after it if there is one\<close>
  "split_first c s =
     (case dropWhile (\<lambda>x. x \<noteq> c) s of
        [] \<Rightarrow> (s, None)
      | _ # r \<Rightarrow> (takeWhile (\<lambda>x. x \<noteq> c) s, Some r))"

definition digit_char :: "nat \<Rightarrow> char" where
  "digit_char d = ''0123456789'' ! d"

fun show_nat :: "nat \<Rightarrow> string" where
  "show_nat n = (if n < 10 then [digit_char n] else show_nat (n div 10) @ [digit_char (n mod 10)])"

declare show_nat.simps [simp del]

definition digits_value :: "string \<Rightarrow> nat" where
  "digits_value ds = foldl (\<lambda>n c. 10 * n + ((of_char c :: nat) - 48)) 0 ds"

section \<open>Errors\<close>

datatype error =
    BadSemver                  \<comment> \<open>\<open>new Error('Bad semver version: ' + version)\<close>\<close>
  | VersionUndefined           \<comment> \<open>\<open>new Error('version is undefined')\<close>\<close>
  | InvalidIncrement string    \<comment> \<open>thrown by \<open>SemVer.inc\<close>: invalid increment argument\<close>
  | TypeError                  \<comment> \<open>thrown by the runtime: property of \<open>null\<close>, missing method\<close>
  | SyntaxError                \<comment> \<open>thrown by \<open>JSON.parse\<close>\<close>
  | ENOENT string              \<comment> \<open>\<open>fs\<close>: no such file\<close>
  | EACCES string              \<comment> \<open>\<open>fs\<close>: the file cannot be written\<close>

section \<open>The semver package\<close>

text \<open>
  Modelled from the spec: the package \<open>semver\<close>, which the program requires and which is not
  part of its sources. The spec names a semantic version \<open>major.minor.patch\<close> with an optional
  prerelease suffix and the standard increment rules; the definitions follow the grammar and
  the increment algorithm of the package (strict and loose parsing, \<open>SemVer.inc\<close>,
  \<open>SemVer.format\<close>). The limits of the implementation (the maximal length of a version string
  and the range of safe integers of a double) are not modelled: numbers are \<^typ>\<open>nat\<close>.
\<close>

datatype ident = Numeric nat | Alphanumeric string

record SemVer =
  major :: nat
  minor :: nat
  patch :: nat
  prerelease :: "ident list"
  build :: "string list"

definition is_idchar :: "char \<Rightarrow> bool" where
  \<comment> \<open>the class \<open>[a-zA-Z0-9-]\<close>\<close>
  "is_idchar c = (is_alnum c \<or> c = CHR ''-'')"

definition numeric_ok :: "bool \<Rightarrow> string \<Rightarrow> bool" where
  \<comment> \<open>strict: \<open>0|[1-9]\d*\<close>; loose: \<open>\d+\<close>\<close>
  "numeric_ok loose s =
     (s \<noteq> [] \<and> list_all is_digit s \<and> (loose \<or> s = ''0'' \<or> hd s \<noteq> CHR ''0''))"

definition prerelease_ok :: "bool \<Rightarrow> string \<Rightarrow> bool" where
  \<comment> \<open>strict: \<open>0|[1-9]\d*|\d*[a-zA-Z-][a-zA-Z0-9-]*\<close>; loose: \<open>\d+|\d*[a-zA-Z-][a-zA-Z0-9-]*\<close>\<close>
  "prerelease_ok loose s =
     (s \<noteq> [] \<and> list_all is_idchar s \<and> (if list_all is_digit s then numeric_ok loose s else True))"

definition build_ok :: "string \<Rightarrow> bool" where
  \<comment> \<open>\<open>[0-9A-Za-z-]+\<close>\<close>
  "build_ok s = (s \<noteq> [] \<and> list_all is_idchar s)"

definition to_identifier :: "string \<Rightarrow> ident" where
  \<comment> \<open>a prerelease identifier of digits only becomes a number\<close>
  "to_identifier s = (if list_all is_digit s then Numeric (digits_value s) else Alphanumeric s)"

definition parse_prerelease :: "bool \<Rightarrow> string \<Rightarrow> ident list option" where
  \<comment> \<open>identifiers separated by dots, all of the text\<close>
  "parse_prerelease loose p =
     (let parts = split_on CHR ''.'' p
      in if list_all (prerelease_ok loose) parts then Some (map to_identifier parts) else None)"

definition parse_build :: "string option \<Rightarrow> string list option" where
  "parse_build b =
     (case b of
        None \<Rightarrow> Some []
      | Some bs \<Rightarrow>
          (let parts = split_on CHR ''.'' bs
           in if list_all build_ok parts then Some parts else None))"

definition parse_strict :: "string \<Rightarrow> SemVer option" where
  \<comment> \<open>Modelled from the spec: the strict grammar of semver. The main version, then \<open>-\<close> and a
      prerelease, then \<open>+\<close> and build metadata, to the end\<close>
  "parse_strict s =
     (let (body, b) = split_first CHR ''+'' s;
          (main, p) = split_first CHR ''-'' body
      in case parse_build b of
           None \<Rightarrow> None
         | Some bld \<Rightarrow>
            (case (case p of None \<Rightarrow> Some [] | Some ps \<Rightarrow> parse_prerelease False ps) of
               None \<Rightarrow> None
             | Some pre \<Rightarrow>
                (case split_on CHR ''.'' main of
                   [a, b', c] \<Rightarrow>
                     if numeric_ok False a \<and> numeric_ok False b' \<and> numeric_ok False c
                     then Some \<lparr>major = digits_value a, minor = digits_value b',
                                patch = digits_value c, prerelease = pre, build = bld\<rparr>
                     else None
                 | _ \<Rightarrow> None)))"

definition loose_tail :: "string \<Rightarrow> ident list option" where
  \<comment> \<open>what follows the patch number in loose mode: nothing, or an optional \<open>-\<close> (tried first
      with, then without) and a prerelease\<close>
  "loose_tail r =
     (case r of
        [] \<Rightarrow> Some []
      | c # r' \<Rightarrow>
          if c = CHR ''-'' then
            (case parse_prerelease True r' of
               Some pre \<Rightarrow> Some pre
             | None \<Rightarrow> parse_prerelease True r)
          else parse_prerelease True r)"

fun loose_patch :: "nat \<Rightarrow> string \<Rightarrow> string \<Rightarrow> (nat \<times> ident list) option" where
  \<comment> \<open>the greedy \<open>\d+\<close> of the patch number gives digits back until the rest matches\<close>
  "loose_patch 0 ds r = None"
| "loose_patch (Suc k) ds r =
     (case loose_tail (drop (Suc k) ds @ r) of
        Some pre \<Rightarrow> Some (digits_value (take (Suc k) ds), pre)
      | None \<Rightarrow> loose_patch k ds r)"

definition parse_loose :: "string \<Rightarrow> SemVer option" where
  \<comment> \<open>Modelled from the spec: the loose grammar of semver. Numbers may have leading zeros and
      the \<open>-\<close> before the prerelease may be missing\<close>
  "parse_loose s =
     (let (body, b) = split_first CHR ''+'' s;
          d1 = takeWhile is_digit body; r1 = dropWhile is_digit body
      in case parse_build b of
           None \<Rightarrow> None
         | Some bld \<Rightarrow>
            (case r1 of
               [] \<Rightarrow> None
             | x # r1' \<Rightarrow>
                let d2 = takeWhile is_digit r1'; r2 = dropWhile is_digit r1'
                in (case r2 of
                      [] \<Rightarrow> None
                    | y # r2' \<Rightarrow>
                       let d3 = takeWhile is_digit r2'; r3 = dropWhile is_digit r2'
                       in if d1 = [] \<or> x \<noteq> CHR ''.'' \<or> d2 = [] \<or> y \<noteq> CHR ''.'' then None
                          else (case loose_patch (length d3) d3 r3 of
                                  None \<Rightarrow> None
                                | Some (pt, pre) \<Rightarrow>
                                    Some \<lparr>major = digits_value d1, minor = digits_value d2,
                                          patch = pt, prerelease = pre, build = bld\<rparr>))))"

definition semver_parse :: "string option \<Rightarrow> bool \<Rightarrow> SemVer option" where
  \<comment> \<open>Modelled from the spec: \<open>semver.parse(version, loose)\<close>, the trimmed text against
      \<open>^v?...$\<close> (strict) or \<open>^[v=\s]*...$\<close> (loose); \<open>null\<close> for anything that is not a string\<close>
  "semver_parse version loose =
     (case version of
        None \<Rightarrow> None
      | Some v \<Rightarrow>
          (let s = trim v
           in if loose
              then parse_loose (dropWhile (\<lambda>c. c = CHR ''v'' \<or> c = CHR ''='' \<or> is_space c) s)
              else parse_strict (case s of [] \<Rightarrow> [] | c # r \<Rightarrow> if c = CHR ''v'' then r else s)))"

definition show_identifier :: "ident \<Rightarrow> string" where
  "show_identifier i = (case i of Numeric n \<Rightarrow> show_nat n | Alphanumeric s \<Rightarrow> s)"

fun join_dots :: "string list \<Rightarrow> string" where
  "join_dots [] = []"
| "join_dots [s] = s"
| "join_dots (s # t # ss) = s @ CHR ''.'' # join_dots (t # ss)"

definition SemVer_format :: "SemVer \<Rightarrow> string" where
  \<comment> \<open>Modelled from the spec: \<open>format()\<close> of semver, which \<open>toString()\<close> returns. The build
      metadata is left out\<close>
  "SemVer_format sv =
     show_nat (major sv) @ CHR ''.'' # show_nat (minor sv) @ CHR ''.'' # show_nat (patch sv) @
     (if prerelease sv = [] then []
      else CHR ''-'' # join_dots (map show_identifier (prerelease sv)))"

definition semver_valid :: "string option \<Rightarrow> string option" where
  \<comment> \<open>Modelled from the spec: \<open>semver.valid(version)\<close>, the formatted version or \<open>null\<close>\<close>
  "semver_valid version = map_option SemVer_format (semver_parse version False)"

fun bump_numeric :: "ident list \<Rightarrow> ident list option" where
  \<comment> \<open>on the reversed prerelease: add one to the first number, if there is a number\<close>
  "bump_numeric [] = None"
| "bump_numeric (Numeric n # r) = Some (Numeric (n + 1) # r)"
| "bump_numeric (Alphanumeric s # r) = map_option ((#) (Alphanumeric s)) (bump_numeric r)"

definition inc_pre :: "SemVer \<Rightarrow> SemVer" where
  \<comment> \<open>\<open>inc('pre')\<close>: \<open>[0]\<close> for an empty prerelease, else the last number plus one, else a
      new \<open>0\<close> at the end\<close>
  "inc_pre sv =
     (if prerelease sv = [] then sv\<lparr>prerelease := [Numeric 0]\<rparr>
      else (case bump_numeric (rev (prerelease sv)) of
              Some r \<Rightarrow> sv\<lparr>prerelease := rev r\<rparr>
            | None \<Rightarrow> sv\<lparr>prerelease := prerelease sv @ [Numeric 0]\<rparr>))"

definition inc_patch :: "SemVer \<Rightarrow> SemVer" where
  \<comment> \<open>\<open>inc('patch')\<close>: a prerelease of the patch becomes that patch\<close>
  "inc_patch sv =
     (if prerelease sv = [] then sv\<lparr>patch := patch sv + 1\<rparr> else sv)\<lparr>prerelease := []\<rparr>"

definition SemVer_inc :: "string \<Rightarrow> SemVer \<Rightarrow> error + SemVer" where
  \<comment> \<open>Modelled from the spec: \<open>SemVer.prototype.inc(release)\<close> of semver, the standard
      increment rules. Any other argument throws\<close>
  "SemVer_inc release sv =
     (if release = ''premajor'' then
        Inr (inc_pre (sv\<lparr>prerelease := [], patch := 0, minor := 0, major := major sv + 1\<rparr>))
      else if release = ''preminor'' then
        Inr (inc_pre (sv\<lparr>prerelease := [], patch := 0, minor := minor sv + 1\<rparr>))
      else if release = ''prepatch'' then
        Inr (inc_pre (inc_patch (sv\<lparr>prerelease := []\<rparr>)))
      else if release = ''prerelease'' then
        Inr (inc_pre (if prerelease sv = [] then inc_patch sv else sv))
      else if release = ''major'' then
        Inr ((if minor sv \<noteq> 0 \<or> patch sv \<noteq> 0 \<or> prerelease sv = []
              then sv\<lparr>major := major sv + 1\<rparr> else sv)\<lparr>minor := 0, patch := 0, prerelease := []\<rparr>)
      else if release = ''minor'' then
        Inr ((if patch sv \<noteq> 0 \<or> prerelease sv = []
              then sv\<lparr>minor := minor sv + 1\<rparr> else sv)\<lparr>patch := 0, prerelease := []\<rparr>)
      else if release = ''patch'' then Inr (inc_patch sv)
      else if release = ''pre'' then Inr (inc_pre sv)
      else Inl (InvalidIncrement release))"

section \<open>Node's path module\<close>

text \<open>
  \<open>path.basename\<close> and \<open>path.extname\<close> of the runtime, for POSIX paths: trailing slashes are
  dropped, the base name is what follows the last slash, and the extension runs from the
  last dot of the base name, unless that dot is its first character or the name is \<open>..\<close>.
\<close>

definition path_basename :: "string \<Rightarrow> string" where
  "path_basename p =
     rev (takeWhile (\<lambda>c. c \<noteq> CHR ''/'') (dropWhile (\<lambda>c. c = CHR ''/'') (rev p)))"

definition path_extname :: "string \<Rightarrow> string" where
  "path_extname p =
     (let b = path_basename p;
          ext = takeWhile (\<lambda>c. c \<noteq> CHR ''.'') (rev b);
          stem = dropWhile (\<lambda>c. c \<noteq> CHR ''.'') (rev b)
      in case stem of
           [] \<Rightarrow> []
         | d # front \<Rightarrow> if front = [] \<or> b = ''..'' then [] else CHR ''.'' # rev ext)"

section \<open>Values, JSON and the file system\<close>

datatype jsval =
    JUndefined
  | JNull
  | JBool bool
  | JNumber int  \<comment> \<open>the program looks at a number only for its truthiness\<close>
  | JString string
  | JArray "jsval list"
  | JObject "(string \<times> jsval) list"

definition typeof_object :: "jsval \<Rightarrow> bool" where
  \<comment> \<open>\<open>typeof data === 'object'\<close>, which holds for \<open>null\<close> too\<close>
  "typeof_object v = (case v of JNull \<Rightarrow> True | JArray _ \<Rightarrow> True | JObject _ \<Rightarrow> True | _ \<Rightarrow> False)"

definition js_truthy :: "jsval \<Rightarrow> bool" where
  "js_truthy v =
     (case v of
        JUndefined \<Rightarrow> False | JNull \<Rightarrow> False | JBool b \<Rightarrow> b | JNumber n \<Rightarrow> n \<noteq> 0
      | JString s \<Rightarrow> s \<noteq> [] | JArray _ \<Rightarrow> True | JObject _ \<Rightarrow> True)"

definition get_version :: "jsval \<Rightarrow> error + jsval" where
  \<comment> \<open>\<open>data.version\<close> for a \<open>data\<close> of type object: reading a property of \<open>null\<close> throws\<close>
  "get_version data =
     (case data of
        JNull \<Rightarrow> Inl TypeError
      | JObject kvs \<Rightarrow> (case map_of kvs ''version'' of None \<Rightarrow> Inr JUndefined | Some v \<Rightarrow> Inr v)
      | _ \<Rightarrow> Inr JUndefined)"

definition set_version :: "jsval \<Rightarrow> jsval \<Rightarrow> jsval" where
  \<comment> \<open>\<open>data.version = v\<close> for an object that has the property: the other keys keep their
      values and their order\<close>
  "set_version data v =
     (case data of
        JObject kvs \<Rightarrow> JObject (map (\<lambda>(k, x). if k = ''version'' then (k, v) else (k, x)) kvs)
      | _ \<Rightarrow> data)"

definition string_of :: "jsval \<Rightarrow> string option" where
  \<comment> \<open>the value if it is a string; nothing else is a version for \<open>semver.valid\<close>\<close>
  "string_of v = (case v of JString s \<Rightarrow> Some s | _ \<Rightarrow> None)"

definition jsval_of :: "string option \<Rightarrow> jsval" where
  "jsval_of v = (case v of None \<Rightarrow> JUndefined | Some s \<Rightarrow> JString s)"

definition concat_string :: "string option \<Rightarrow> string" where
  \<comment> \<open>what \<open>'...' + v\<close> appends\<close>
  "concat_string v = (case v of None \<Rightarrow> ''undefined'' | Some s \<Rightarrow> s)"

text \<open>
  \<open>JSON.parse\<close> and \<open>JSON.stringify(data, null, 2)\<close> are built into the runtime; they are
  parameters of the model. \<open>JSON_parse\<close> gives \<open>None\<close> where the built-in throws.
\<close>

record runtime =
  JSON_parse :: "string \<Rightarrow> jsval option"
  JSON_stringify :: "jsval \<Rightarrow> string"

text \<open>
  The file system holds the text of each file that exists; a file in \<open>readonly\<close> cannot be
  written. Reading a missing file and writing a read-only one are the I/O errors of the model.
\<close>

record fs =
  files :: "string \<rightharpoonup> string"
  readonly :: "string set"

definition fs_readFile :: "fs \<Rightarrow> string \<Rightarrow> error + string" where
  \<comment> \<open>\<open>fs.readFile\<close> followed by \<open>data.toString()\<close>\<close>
  "fs_readFile d p = (case files d p of None \<Rightarrow> Inl (ENOENT p) | Some s \<Rightarrow> Inr s)"

definition fs_writeFile :: "fs \<Rightarrow> string \<Rightarrow> string \<Rightarrow> error option \<times> fs" where
  "fs_writeFile d p s =
     (if p \<in> readonly d then (Some (EACCES p), d) else (None, d\<lparr>files := (files d)(p \<mapsto> s)\<rparr>))"

section \<open>The pattern VERSION\<close>

text \<open>
  \<open>const VERSION = /(\bVERSION\b.*?)(\d+\.\d+\.\d+(?:-[a-zA-Z0-9]+)?)/\<close>, matched as a
  backtracking matcher does: start positions from the left, the lazy \<open>.*?\<close> from the shortest
  gap, the greedy \<open>\d+\<close> and \<open>[a-zA-Z0-9]+\<close> from the longest run.
\<close>

definition token_at :: "string \<Rightarrow> (string \<times> string) option" where
  \<comment> \<open>the second group at the head of the text: the token and what follows it\<close>
  "token_at s =
     (let d1 = takeWhile is_digit s; r1 = dropWhile is_digit s
      in case r1 of
           [] \<Rightarrow> None
         | x # r1' \<Rightarrow>
            let d2 = takeWhile is_digit r1'; r2 = dropWhile is_digit r1'
            in (case r2 of
                  [] \<Rightarrow> None
                | y # r2' \<Rightarrow>
                   let d3 = takeWhile is_digit r2'; r3 = dropWhile is_digit r2'
                   in if d1 = [] \<or> x \<noteq> CHR ''.'' \<or> d2 = [] \<or> y \<noteq> CHR ''.'' \<or> d3 = [] then None
                      else (case r3 of
                              [] \<Rightarrow> Some (d1 @ x # d2 @ y # d3, r3)
                            | z # r3' \<Rightarrow>
                               if z = CHR ''-'' \<and> takeWhile is_alnum r3' \<noteq> []
                               then Some (d1 @ x # d2 @ y # d3 @ z # takeWhile is_alnum r3',
                                          dropWhile is_alnum r3')
                               else Some (d1 @ x # d2 @ y # d3, r3))))"

fun lazy_gap :: "string \<Rightarrow> (string \<times> string \<times> string) option" where
  \<comment> \<open>\<open>.*?\<close> and the token: the gap, the token and what follows\<close>
  "lazy_gap [] = None"
| "lazy_gap (c # cs) =
     (case token_at (c # cs) of
        Some (t, r) \<Rightarrow> Some ([], t, r)
      | None \<Rightarrow>
          if is_line_terminator c then None
          else (case lazy_gap cs of None \<Rightarrow> None | Some (g, t, r) \<Rightarrow> Some (c # g, t, r)))"

definition match_here :: "char option \<Rightarrow> string \<Rightarrow> (string \<times> string \<times> string) option" where
  \<comment> \<open>a match that starts here, after the code unit \<open>prev\<close>: the two groups and what follows\<close>
  "match_here prev s =
     (if (case prev of None \<Rightarrow> True | Some p \<Rightarrow> \<not> is_word p) \<and> take 7 s = ''VERSION'' \<and>
         (case drop 7 s of [] \<Rightarrow> True | c # _ \<Rightarrow> \<not> is_word c)
      then (case lazy_gap (drop 7 s) of
              None \<Rightarrow> None
            | Some (g, t, r) \<Rightarrow> Some (''VERSION'' @ g, t, r))
      else None)"

fun exec_from :: "char option \<Rightarrow> string \<Rightarrow> (string \<times> string \<times> string \<times> string) option" where
  "exec_from prev [] = None"
| "exec_from prev (c # cs) =
     (case match_here prev (c # cs) of
        Some (g1, g2, r) \<Rightarrow> Some ([], g1, g2, r)
      | None \<Rightarrow>
          (case exec_from (Some c) cs of
             None \<Rightarrow> None
           | Some (b, g1, g2, r) \<Rightarrow> Some (c # b, g1, g2, r)))"

definition VERSION_exec :: "string \<Rightarrow> (string \<times> string \<times> string \<times> string) option" where
  \<comment> \<open>\<open>VERSION.exec(data)\<close>: the text before the match, group 1, group 2, the text after\<close>
  "VERSION_exec s = exec_from None s"

fun GetSubstitution :: "string \<Rightarrow> string \<Rightarrow> string \<Rightarrow> string list \<Rightarrow> string \<Rightarrow> string" where
  \<comment> \<open>the replacement text of \<open>String.prototype.replace\<close> for a match \<open>m\<close> between \<open>b\<close> and \<open>a\<close>
      with the groups \<open>caps\<close>: \<open>$$\<close>, \<open>$&\<close>, \<open>$`\<close>, \<open>$'\<close>, \<open>$n\<close> and \<open>$nn\<close> are patterns; a two-digit
      index beyond the groups is read as one digit\<close>
  "GetSubstitution m b a caps [] = []"
| "GetSubstitution m b a caps [c] = [c]"
| "GetSubstitution m b a caps (c # d # r) =
     (if c \<noteq> CHR ''$'' then c # GetSubstitution m b a caps (d # r)
      else if d = CHR ''$'' then CHR ''$'' # GetSubstitution m b a caps r
      else if d = CHR ''&'' then m @ GetSubstitution m b a caps r
      else if d = CHR ''`'' then b @ GetSubstitution m b a caps r
      else if d = CHR 0x27 then a @ GetSubstitution m b a caps r
      else if is_digit d then
        (case r of
           [] \<Rightarrow>
             if 1 \<le> digits_value [d] \<and> digits_value [d] \<le> length caps
             then caps ! (digits_value [d] - 1)
             else [c, d]
         | e # r' \<Rightarrow>
             if is_digit e \<and> 1 \<le> digits_value [d, e] \<and> digits_value [d, e] \<le> length caps
             then caps ! (digits_value [d, e] - 1) @ GetSubstitution m b a caps r'
             else if 1 \<le> digits_value [d] \<and> digits_value [d] \<le> length caps
             then caps ! (digits_value [d] - 1) @ GetSubstitution m b a caps (e # r')
             else c # GetSubstitution m b a caps (d # e # r'))
      else c # GetSubstitution m b a caps (d # r))"

definition replace_VERSION :: "string \<Rightarrow> string \<Rightarrow> string" where
  \<comment> \<open>\<open>data.replace(VERSION, replacement)\<close>: the pattern is not global, so the first match only\<close>
  "replace_VERSION s replacement =
     (case VERSION_exec s of
        None \<Rightarrow> s
      | Some (b, g1, g2, a) \<Rightarrow> b @ GetSubstitution (g1 @ g2) b a [g1, g2] replacement @ a)"

section \<open>The Version object\<close>

definition CMDS :: "string list" where
  "CMDS = [''premajor'', ''preminor'', ''prepatch'', ''prerelease'', ''major'', ''minor'',
           ''patch'', ''pre'', ''same'', ''set'']"

record options =
  opt_version :: "string option"
  opt_cmd :: "string option"
  opt_type :: "string option"

text \<open>The field \<open>data\<close> of the object is set to \<open>null\<close> and never read; it is left out.
  The field \<open>file\<close> is \<open>file_path\<close> here.\<close>

record Version =
  file_path :: string
  options :: options
  version :: "string option"
  cmd :: string

definition new_Version :: "string \<Rightarrow> options option \<Rightarrow> Version" where
  \<comment> \<open>the constructor \<open>Version(file, options)\<close>. It writes \<open>type\<close> into the options object it
      was given; the model gives every object options of its own\<close>
  "new_Version f opts =
     (let os = (case opts of
                  None \<Rightarrow> \<lparr>opt_version = None, opt_cmd = None, opt_type = None\<rparr>
                | Some x \<Rightarrow> x)
      in \<lparr>file_path = f,
          options = (if path_basename f = ''VERSION'' then os\<lparr>opt_type := Some ''VERSION''\<rparr> else os),
          version = opt_version os,
          cmd = (case opt_cmd os of None \<Rightarrow> ''same'' | Some c \<Rightarrow> if c \<noteq> [] then c else ''same'')\<rparr>)"

definition Version_setVersion :: "string option \<Rightarrow> Version \<Rightarrow> error option \<times> Version" where
  \<comment> \<open>the returned error, if any, and the object afterwards\<close>
  "Version_setVersion v this =
     (if truthy (semver_valid v) then (None, this\<lparr>version := v\<rparr>)
      else (Some BadSemver, this\<lparr>version := None\<rparr>))"

definition Version__extract :: "jsval \<Rightarrow> Version \<Rightarrow> error + error option \<times> Version" where
  \<comment> \<open>\<open>_extract(data)\<close>; \<open>Inl\<close> is an exception of the runtime: \<open>data.version\<close> of \<open>null\<close>, or
      \<open>trim\<close> on a \<open>data\<close> that is no string. \<open>exec\<close> turns such a \<open>data\<close> into a string, which
      never holds the word \<open>VERSION\<close>\<close>
  "Version__extract data this =
     (if typeof_object data then
        (case get_version data of
           Inl e \<Rightarrow> Inl e
         | Inr v \<Rightarrow> Inr (Version_setVersion (string_of v) this))
      else if opt_type (options this) = Some ''VERSION'' then
        (case data of
           JString s \<Rightarrow> Inr (Version_setVersion (Some (trim s)) this)
         | _ \<Rightarrow> Inl TypeError)
      else
        (case data of
           JString s \<Rightarrow>
             Inr (Version_setVersion
                    (case VERSION_exec s of None \<Rightarrow> None | Some (b, g1, g2, a) \<Rightarrow> Some g2) this)
         | _ \<Rightarrow> Inr (Version_setVersion None this)))"

definition command_of :: "string option \<Rightarrow> Version \<Rightarrow> string" where
  \<comment> \<open>\<open>cmd || this.cmd\<close>\<close>
  "command_of c this = (case c of None \<Rightarrow> cmd this | Some x \<Rightarrow> if x \<noteq> [] then x else cmd this)"

definition Version_inc :: "string option \<Rightarrow> Version \<Rightarrow> error + string option \<times> Version" where
  \<comment> \<open>\<open>inc(cmd)\<close>: the returned version and the object afterwards; \<open>Inl\<close> is what \<open>sv.inc\<close> throws\<close>
  "Version_inc c this =
     (let sv = semver_parse (version this) True;
          c' = command_of c this
      in case sv of
           None \<Rightarrow> Inr (None, this)
         | Some s \<Rightarrow>
             if c' \<noteq> [] \<and> c' \<in> set CMDS then
               (if c' \<noteq> ''same'' then
                  (case SemVer_inc c' s of
                     Inl e \<Rightarrow> Inl e
                   | Inr s' \<Rightarrow> Inr (Some (SemVer_format s'), this\<lparr>version := Some (SemVer_format s')\<rparr>))
                else Inr (Some (SemVer_format s), this\<lparr>version := Some (SemVer_format s)\<rparr>))
             else Inr (None, this))"

definition Version__change :: "jsval \<Rightarrow> Version \<Rightarrow> error + jsval" where
  \<comment> \<open>\<open>_change(data)\<close>; \<open>Inl\<close> is an exception of the runtime: \<open>data.version\<close> of \<open>null\<close>, or
      \<open>replace\<close> on a \<open>data\<close> that is no string\<close>
  "Version__change data this =
     (if typeof_object data then
        (case get_version data of
           Inl e \<Rightarrow> Inl e
         | Inr v \<Rightarrow> Inr (if js_truthy v then set_version data (jsval_of (version this)) else data))
      else if opt_type (options this) = Some ''VERSION'' then Inr (jsval_of (version this))
      else
        (case data of
           JString s \<Rightarrow> Inr (JString (replace_VERSION s (''$1'' @ concat_string (version this))))
         | _ \<Rightarrow> Inl TypeError))"

definition Version_readFile :: "runtime \<Rightarrow> fs \<Rightarrow> Version \<Rightarrow> error + jsval" where
  \<comment> \<open>what the callback of \<open>readFile\<close> receives: \<open>Inl\<close> the error, \<open>Inr\<close> the data\<close>
  "Version_readFile rt d this =
     (case fs_readFile d (file_path this) of
        Inl e \<Rightarrow> Inl e
      | Inr s \<Rightarrow>
          if path_extname (file_path this) = ''.json''
          then (case JSON_parse rt s of None \<Rightarrow> Inl SyntaxError | Some v \<Rightarrow> Inr v)
          else Inr (JString s))"

definition write_text :: "runtime \<Rightarrow> jsval \<Rightarrow> error + string" where
  \<comment> \<open>the text that \<open>writeFile\<close> hands to \<open>fs.writeFile\<close>, which throws for a \<open>data\<close> that is
      neither object nor string (it no longer turns such a value into a string)\<close>
  "write_text rt data =
     (if typeof_object data then Inr (JSON_stringify rt data @ [CHR 0x0A])
      else (case data of JString s \<Rightarrow> Inr s | _ \<Rightarrow> Inl TypeError))"

definition Version_writeFile :: "runtime \<Rightarrow> fs \<Rightarrow> jsval \<Rightarrow> Version \<Rightarrow> error + error option \<times> fs" where
  \<comment> \<open>\<open>Inr\<close>: what the callback receives and the file system afterwards; \<open>Inl\<close>: an exception\<close>
  "Version_writeFile rt d data this =
     (case write_text rt data of
        Inl e \<Rightarrow> Inl e
      | Inr s \<Rightarrow> Inr (fs_writeFile d (file_path this) s))"

definition Version_extract ::
  "runtime \<Rightarrow> fs \<Rightarrow> Version \<Rightarrow> error + (error option \<times> string option) \<times> Version" where
  \<comment> \<open>\<open>extract(cb)\<close>: the arguments of \<open>cb\<close> and the object afterwards; \<open>Inl\<close>: an exception
      that leaves the callback of \<open>readFile\<close>\<close>
  "Version_extract rt d this =
     (case Version_readFile rt d this of
        Inl e \<Rightarrow> Inr ((Some e, version this), this)
      | Inr data \<Rightarrow>
          (case Version__extract data this of
             Inl e \<Rightarrow> Inl e
           | Inr (err, this') \<Rightarrow> Inr ((err, version this'), this')))"

definition Version_change :: "runtime \<Rightarrow> fs \<Rightarrow> Version \<Rightarrow> error + error option \<times> fs" where
  \<comment> \<open>\<open>change(cb)\<close>: the argument of \<open>cb\<close> and the file system afterwards; \<open>Inl\<close>: an
      exception that leaves the callback of \<open>readFile\<close>\<close>
  "Version_change rt d this =
     (case Version_readFile rt d this of
        Inl e \<Rightarrow> Inr (Some e, d)
      | Inr data \<Rightarrow>
          (case Version__change data this of
             Inl e \<Rightarrow> Inl e
           | Inr data' \<Rightarrow> Version_writeFile rt d data' this))"

section \<open>Version.changeFiles\<close>

text \<open>
  Modelled from the spec: \<open>eachLimit\<close> of the package \<open>asyncc\<close>, which is not part of the
  sources. It starts the task on the first \<open>limit\<close> items, starts the next waiting item
  whenever a task calls back, whatever the task reports, and calls the final callback once
  every item has called back.

  The runtime runs one callback at a time. A state of the batch is what holds between two
  callbacks; an event is the completion of the pending \<open>fs.readFile\<close> or \<open>fs.writeFile\<close> of
  one task in flight, and the order of the events is not determined. An exception that
  leaves a callback is not caught by anything: the batch stops there.
\<close>

datatype phase = Reading | Writing string

record task =
  target :: Version
  phase :: phase

record batch =
  wanted :: "string option"  \<comment> \<open>the argument \<open>version\<close>\<close>
  queue :: "string list"  \<comment> \<open>the files not started yet\<close>
  flight :: "task list"  \<comment> \<open>the tasks started that have not called back\<close>
  err :: "string list"  \<comment> \<open>the array \<open>err\<close>\<close>
  disk :: fs
  answer :: "(error + string list) option"  \<comment> \<open>the argument of \<open>cb\<close>, once it is called\<close>
  uncaught :: "error option"  \<comment> \<open>the exception that left a callback\<close>
  finished :: "(string \<times> error option) list"
    \<comment> \<open>history: each file with what its \<open>change\<close> reported, in the order of the reports\<close>

definition start_task :: "string option \<Rightarrow> string \<Rightarrow> task" where
  \<comment> \<open>\<open>new Version(file, { version })\<close> and the call of \<open>change\<close>, which starts reading\<close>
  "start_task v f =
     \<lparr>target = new_Version f (Some \<lparr>opt_version = v, opt_cmd = None, opt_type = None\<rparr>),
      phase = Reading\<rparr>"

definition finish :: "nat \<Rightarrow> error option \<Rightarrow> batch \<Rightarrow> batch" where
  \<comment> \<open>Modelled from the spec: what \<open>eachLimit\<close> of asyncc does when a task calls back. The
      callback of \<open>change\<close> for the task at \<open>i\<close> puts the file into \<open>err\<close> if there is an error; then
      \<open>_cb()\<close> starts the next file or, after the last report, calls \<open>cb(err)\<close>\<close>
  "finish i e b =
     (let f = file_path (target (flight b ! i));
          others = take i (flight b) @ drop (Suc i) (flight b);
          err' = (if e = None then err b else err b @ [f])
      in b\<lparr>queue := drop 1 (queue b),
           flight := others @ map (start_task (wanted b)) (take 1 (queue b)),
           err := err',
           answer := (if queue b = [] \<and> others = [] then Some (Inr err') else answer b),
           finished := finished b @ [(f, e)]\<rparr>)"

definition complete :: "runtime \<Rightarrow> nat \<Rightarrow> batch \<Rightarrow> batch" where
  \<comment> \<open>the event: the pending operation of the task at \<open>i\<close> completes and its callback runs\<close>
  "complete rt i b =
     (let t = flight b ! i
      in case phase t of
           Reading \<Rightarrow>
             (case Version_readFile rt (disk b) (target t) of
                Inl e \<Rightarrow> finish i (Some e) b
              | Inr data \<Rightarrow>
                  (case Version__change data (target t) of
                     Inl x \<Rightarrow> b\<lparr>uncaught := Some x\<rparr>
                   | Inr data' \<Rightarrow>
                       (case write_text rt data' of
                          Inl x \<Rightarrow> b\<lparr>uncaught := Some x\<rparr>
                        | Inr s \<Rightarrow> b\<lparr>flight := (flight b)[i := t\<lparr>phase := Writing s\<rparr>]\<rparr>)))
         | Writing s \<Rightarrow>
             (case fs_writeFile (disk b) (file_path (target t)) s of
                (e, d') \<Rightarrow> finish i e (b\<lparr>disk := d'\<rparr>)))"

fun run :: "runtime \<Rightarrow> nat list \<Rightarrow> batch \<Rightarrow> batch option" where
  \<comment> \<open>Modelled from the spec: the callbacks of a batch under \<open>eachLimit\<close> of asyncc, in the
      order of a schedule; \<open>None\<close> if the schedule names a task that is not in flight, or goes
      on after an uncaught exception\<close>
  "run rt [] b = Some b"
| "run rt (i # sched) b =
     (if i < length (flight b) \<and> uncaught b = None then run rt sched (complete rt i b) else None)"

definition Version_changeFiles :: "string list \<Rightarrow> string option \<Rightarrow> fs \<Rightarrow> batch" where
  \<comment> \<open>the state when the call returns: without a version \<open>cb\<close> has the error and nothing is
      started; else the first 5 files are in flight, and a batch of no files has called
      back with the empty list\<close>
  "Version_changeFiles fls v d =
     (if v = None then
        \<lparr>wanted = v, queue = [], flight = [], err = [], disk = d,
         answer = Some (Inl VersionUndefined), uncaught = None, finished = []\<rparr>
      else
        \<lparr>wanted = v, queue = drop 5 fls, flight = map (start_task v) (take 5 fls), err = [],
         disk = d, answer = (if fls = [] then Some (Inr []) else None), uncaught = None,
         finished = []\<rparr>)"

section \<open>Notions the properties are stated with\<close>

definition valid_semver :: "string option \<Rightarrow> bool" where
  \<comment> \<open>the test \<open>if (semver.valid(version))\<close> of \<open>setVersion\<close>\<close>
  "valid_semver v = truthy (semver_valid v)"


definition digits :: "string \<Rightarrow> bool" where
  \<comment> \<open>\<open>\d+\<close>, all of the text\<close>
  "digits s = (s \<noteq> [] \<and> list_all is_digit s)"

definition three_numbers :: "string \<Rightarrow> bool" where
  \<comment> \<open>\<open>\d+\.\d+\.\d+\<close>, all of the text\<close>
  "three_numbers m =
     (case split_on CHR ''.'' m of
        [a, b, c] \<Rightarrow> digits a \<and> digits b \<and> digits c
      | _ \<Rightarrow> False)"

definition token_shape :: "string \<Rightarrow> bool" where
  \<comment> \<open>the shape of a token as the spec words it: \<open>\d+\.\d+\.\d+\<close> with an optional suffix of
      \<open>-\<close> and alphanumerics\<close>
  "token_shape t =
     (case split_first CHR ''-'' t of
        (m, None) \<Rightarrow> three_numbers m
      | (m, Some p) \<Rightarrow> three_numbers m \<and> p \<noteq> [] \<and> list_all is_alnum p)"

definition VERSION_match :: "string \<Rightarrow> string \<Rightarrow> string \<Rightarrow> string \<Rightarrow> bool" where
  \<comment> \<open>in a text \<open>b @ VERSION @ g @ t @ a\<close>, the word \<open>VERSION\<close> stands between word boundaries,
      the gap \<open>g\<close> stays on the line, and \<open>t\<close> has the shape of a token\<close>
  "VERSION_match b g t a =
     ((b = [] \<or> \<not> is_word (last b)) \<and>
      (case g @ t @ a of [] \<Rightarrow> True | c # _ \<Rightarrow> \<not> is_word c) \<and>
      list_all (\<lambda>c. \<not> is_line_terminator c) g \<and>
      token_shape t)"

definition prev_of :: "char option \<Rightarrow> string \<Rightarrow> char option" where
  \<comment> \<open>the code unit before a position that comes after the text \<open>b\<close>\<close>
  "prev_of prev b = (if b = [] then prev else Some (last b))"

fun wf_ident :: "ident \<Rightarrow> bool" where
  \<comment> \<open>a prerelease identifier as the parser makes it: text is kept only if it is not a number\<close>
  "wf_ident (Numeric n) = True"
| "wf_ident (Alphanumeric s) = (s \<noteq> [] \<and> list_all is_idchar s \<and> \<not> list_all is_digit s)"

definition well_formed :: "SemVer \<Rightarrow> bool" where
  "well_formed sv = list_all wf_ident (prerelease sv)"

definition stored_valid :: "Version \<Rightarrow> bool" where
  \<comment> \<open>the invariant: the stored version, when present, is a valid semantic version\<close>
  "stored_valid this = (case version this of None \<Rightarrow> True | Some v \<Rightarrow> valid_semver (Some v))"

definition reports :: "runtime \<Rightarrow> nat \<Rightarrow> batch \<Rightarrow> bool" where
  \<comment> \<open>the event at \<open>i\<close> ends the \<open>change\<close> of that task: its write completes, or its read fails\<close>
  "reports rt i b =
     (case phase (flight b ! i) of
        Writing s \<Rightarrow> True
      | Reading \<Rightarrow> isl (Version_readFile rt (disk b) (target (flight b ! i))))"

definition capped :: "batch \<Rightarrow> bool" where
  \<comment> \<open>at most five tasks in flight, and five of them while files wait\<close>
  "capped b = (length (flight b) \<le> 5 \<and> (if queue b = [] then True else length (flight b) = 5))"

definition accounted :: "string list \<Rightarrow> batch \<Rightarrow> bool" where
  \<comment> \<open>every file of the batch has reported, is in flight or waits; \<open>err\<close> holds the files that
      reported an error, in the order of the reports; \<open>cb\<close> has been called exactly when no
      task is in flight, with \<open>err\<close>\<close>
  "accounted fls b =
     (mset (map fst (finished b)) + mset (map (\<lambda>t. file_path (target t)) (flight b)) +
        mset (queue b) = mset fls \<and>
      err b = map fst (filter (\<lambda>p. snd p \<noteq> None) (finished b)) \<and>
      (case answer b of
         None \<Rightarrow> flight b \<noteq> []
       | Some a \<Rightarrow> a = Inr (err b) \<and> queue b = [] \<and> flight b = []))"

definition six_files :: "string list" where
  "six_files = [''missing.js'', ''index.js'', ''README.md'', ''VERSION'', ''notes.txt'', ''VERSION.txt'']"

text \<open>
  The examples use a runtime whose \<open>JSON.parse\<close> and \<open>JSON.stringify\<close> know the one document
  \<open>null\<close>, and a file system of a few files.
\<close>

definition example_runtime :: runtime where
  "example_runtime =
     \<lparr>JSON_parse = (\<lambda>s. if s = ''null'' then Some JNull else None),
      JSON_stringify = (\<lambda>v. ''null'')\<rparr>"

definition example_disk :: fs where
  "example_disk =
     \<lparr>files = [''index.js'' \<mapsto> ''VERSION = 1.2.3; VERSION 1.2.3'',
               ''VERSION'' \<mapsto> ''1.2.3'' @ [CHR 0x0A],
               ''VERSION.txt'' \<mapsto> ''1.2.3'' @ [CHR 0x0A],
               ''notes.txt'' \<mapsto> ''VERSION'' @ [CHR 0x0A] @ ''1.2.3'',
               ''README.md'' \<mapsto> ''no version here'',
               ''data.json'' \<mapsto> ''null'',
               ''lib/VERSION'' \<mapsto> ''soon''],
      readonly = {}\<rparr>"

section \<open>Properties\<close>

subsection \<open>Increment\<close>

lemma parse_1_2_3:
  "semver_parse (Some ''1.2.3'') True =
     Some \<lparr>major = 1, minor = 2, patch = 3, prerelease = [], build = []\<rparr>"
  by code_simp

lemma format_examples:
  "SemVer_format \<lparr>major = 2, minor = 0, patch = 0, prerelease = [], build = []\<rparr> = ''2.0.0''"
  "SemVer_format \<lparr>major = 1, minor = 3, patch = 0, prerelease = [], build = []\<rparr> = ''1.3.0''"
  "SemVer_format \<lparr>major = 1, minor = 2, patch = 4, prerelease = [], build = []\<rparr> = ''1.2.4''"
  "SemVer_format \<lparr>major = 1, minor = 2, patch = 4, prerelease = [Numeric 0], build = []\<rparr> = ''1.2.4-0''"
  "SemVer_format \<lparr>major = 1, minor = 2, patch = 3, prerelease = [], build = []\<rparr> = ''1.2.3''"
  by code_simp+

lemma SemVer_inc_examples:
  "SemVer_inc ''major'' \<lparr>major = 1, minor = 2, patch = 3, prerelease = [], build = []\<rparr> =
     Inr \<lparr>major = 2, minor = 0, patch = 0, prerelease = [], build = []\<rparr>"
  "SemVer_inc ''minor'' \<lparr>major = 1, minor = 2, patch = 3, prerelease = [], build = []\<rparr> =
     Inr \<lparr>major = 1, minor = 3, patch = 0, prerelease = [], build = []\<rparr>"
  "SemVer_inc ''patch'' \<lparr>major = 1, minor = 2, patch = 3, prerelease = [], build = []\<rparr> =
     Inr \<lparr>major = 1, minor = 2, patch = 4, prerelease = [], build = []\<rparr>"
  "SemVer_inc ''prerelease'' \<lparr>major = 1, minor = 2, patch = 3, prerelease = [], build = []\<rparr> =
     Inr \<lparr>major = 1, minor = 2, patch = 4, prerelease = [Numeric 0], build = []\<rparr>"
  by (simp_all add: SemVer_inc_def inc_pre_def inc_patch_def)

lemma inc_of_1_2_3:
  "Version_inc (Some ''major'') (this\<lparr>version := Some ''1.2.3''\<rparr>) =
     Inr (Some ''2.0.0'', this\<lparr>version := Some ''2.0.0''\<rparr>)"
  "Version_inc (Some ''minor'') (this\<lparr>version := Some ''1.2.3''\<rparr>) =
     Inr (Some ''1.3.0'', this\<lparr>version := Some ''1.3.0''\<rparr>)"
  "Version_inc (Some ''patch'') (this\<lparr>version := Some ''1.2.3''\<rparr>) =
     Inr (Some ''1.2.4'', this\<lparr>version := Some ''1.2.4''\<rparr>)"
  "Version_inc (Some ''prerelease'') (this\<lparr>version := Some ''1.2.3''\<rparr>) =
     Inr (Some ''1.2.4-0'', this\<lparr>version := Some ''1.2.4-0''\<rparr>)"
  "Version_inc (Some ''same'') (this\<lparr>version := Some ''1.2.3''\<rparr>) =
     Inr (Some ''1.2.3'', this\<lparr>version := Some ''1.2.3''\<rparr>)"
  by (simp_all add: Version_inc_def command_of_def CMDS_def parse_1_2_3 SemVer_inc_examples
      format_examples del: One_nat_def)

lemma inc_noop:
  assumes "version this = None \<or> command_of c this \<notin> set CMDS"
  shows "Version_inc c this = Inr (None, this)"
proof (cases "version this")
  case None
  then have "semver_parse (version this) True = None"
    by (simp add: semver_parse_def)
  then show ?thesis
    by (simp add: Version_inc_def)
next
  case (Some v)
  with assms have "command_of c this \<notin> set CMDS"
    by simp
  then show ?thesis
    by (simp add: Version_inc_def Let_def split: option.splits)
qed

text \<open>
  C1. With the stored version \<open>1.2.3\<close>, \<open>inc\<close> returns and stores \<open>2.0.0\<close> for \<open>major\<close>, \<open>1.3.0\<close>
  for \<open>minor\<close>, \<open>1.2.4\<close> for \<open>patch\<close>, \<open>1.2.4-0\<close> for \<open>prerelease\<close> and \<open>1.2.3\<close> for \<open>same\<close>. For every
  object, \<open>inc\<close> returns nothing and leaves the object as it is when the stored version is
  missing or the command in effect (the argument, or else the command of the object) is not
  in \<open>CMDS\<close>.
\<close>

theorem inc_1_2_3_and_noop:
  "Version_inc (Some ''major'') (this\<lparr>version := Some ''1.2.3''\<rparr>) =
     Inr (Some ''2.0.0'', this\<lparr>version := Some ''2.0.0''\<rparr>) \<and>
   Version_inc (Some ''minor'') (this\<lparr>version := Some ''1.2.3''\<rparr>) =
     Inr (Some ''1.3.0'', this\<lparr>version := Some ''1.3.0''\<rparr>) \<and>
   Version_inc (Some ''patch'') (this\<lparr>version := Some ''1.2.3''\<rparr>) =
     Inr (Some ''1.2.4'', this\<lparr>version := Some ''1.2.4''\<rparr>) \<and>
   Version_inc (Some ''prerelease'') (this\<lparr>version := Some ''1.2.3''\<rparr>) =
     Inr (Some ''1.2.4-0'', this\<lparr>version := Some ''1.2.4-0''\<rparr>) \<and>
   Version_inc (Some ''same'') (this\<lparr>version := Some ''1.2.3''\<rparr>) =
     Inr (Some ''1.2.3'', this\<lparr>version := Some ''1.2.3''\<rparr>) \<and>
   (version that = None \<or> command_of c that \<notin> set CMDS \<longrightarrow>
      Version_inc c that = Inr (None, that))"
  using inc_of_1_2_3 [of this] inc_noop [of that c] by blast

theorem inc_1_2_3_and_noop_witness:
  "command_of (Some ''bump'')
     (new_Version ''package.json''
        (Some \<lparr>opt_version = Some ''1.2.3'', opt_cmd = None, opt_type = None\<rparr>)) \<notin> set CMDS \<and>
   Version_inc (Some ''bump'')
     (new_Version ''package.json''
        (Some \<lparr>opt_version = Some ''1.2.3'', opt_cmd = None, opt_type = None\<rparr>)) =
   Inr (None, new_Version ''package.json''
        (Some \<lparr>opt_version = Some ''1.2.3'', opt_cmd = None, opt_type = None\<rparr>)) \<and>
   Version_inc (Some ''major'') (new_Version ''package.json'' None) = Inr (None, new_Version ''package.json'' None)"
proof -
  let ?v = "new_Version ''package.json''
        (Some \<lparr>opt_version = Some ''1.2.3'', opt_cmd = None, opt_type = None\<rparr>)"
  let ?u = "new_Version ''package.json'' None"
  have c: "command_of (Some ''bump'') ?v \<notin> set CMDS"
    by (simp add: command_of_def CMDS_def)
  have n: "version ?u = None"
    by (simp add: new_Version_def Let_def)
  from c n show ?thesis
    using inc_1_2_3_and_noop [of ?v ?v "Some ''bump''"]
      inc_1_2_3_and_noop [of ?u ?u "Some ''major''"] by blast
qed

subsection \<open>Setting a version\<close>

lemma invalid_examples:
  "\<not> valid_semver (Some ''1.2'')" "\<not> valid_semver (Some ''abc'')"
  "\<not> valid_semver (Some [])" "\<not> valid_semver None"
  by code_simp+

lemma valid_1_2_3: "valid_semver (Some ''1.2.3'')"
  by code_simp

text \<open>
  C2. \<open>setVersion\<close> with a valid version returns no error and stores exactly that text; with
  anything invalid it returns the error and the stored version becomes absent. \<open>1.2\<close>, \<open>abc\<close>,
  the empty string and an absent value are invalid.
\<close>

theorem setVersion_stores_or_clears:
  "(valid_semver (Some v) \<longrightarrow>
      Version_setVersion (Some v) this = (None, this\<lparr>version := Some v\<rparr>)) \<and>
   (\<not> valid_semver s \<longrightarrow>
      Version_setVersion s this = (Some BadSemver, this\<lparr>version := None\<rparr>)) \<and>
   \<not> valid_semver (Some ''1.2'') \<and> \<not> valid_semver (Some ''abc'') \<and>
   \<not> valid_semver (Some []) \<and> \<not> valid_semver None"
  using invalid_examples by (simp add: Version_setVersion_def valid_semver_def)

theorem setVersion_stores_or_clears_witness:
  "valid_semver (Some ''1.2.3'') \<and> \<not> valid_semver (Some ''1.2'') \<and>
   Version_setVersion (Some ''1.2.3'') (new_Version ''package.json'' None) =
     (None, new_Version ''package.json'' None\<lparr>version := Some ''1.2.3''\<rparr>) \<and>
   Version_setVersion (Some ''1.2'') (new_Version ''package.json'' None\<lparr>version := Some ''1.2.3''\<rparr>) =
     (Some BadSemver, new_Version ''package.json'' None\<lparr>version := None\<rparr>)"
proof -
  let ?u = "new_Version ''package.json'' None"
  have "\<not> valid_semver (Some ''1.2'')"
    by (rule invalid_examples)
  with valid_1_2_3 show ?thesis
    using setVersion_stores_or_clears [of "''1.2.3''" ?u "Some ''1.2''"]
      setVersion_stores_or_clears [of "''1.2.3''" "?u\<lparr>version := Some ''1.2.3''\<rparr>" "Some ''1.2''"]
    by simp
qed

subsection \<open>The batch without a version\<close>

text \<open>
  C4. Without a version (\<open>undefined\<close>), \<open>changeFiles\<close> calls back at once with the one error
  \<open>version is undefined\<close>; no task is started, no event can follow, and the file system is
  the one it was given.
\<close>

theorem changeFiles_without_version:
  "answer (Version_changeFiles fls None d) = Some (Inl VersionUndefined) \<and>
   flight (Version_changeFiles fls None d) = [] \<and>
   queue (Version_changeFiles fls None d) = [] \<and>
   finished (Version_changeFiles fls None d) = [] \<and>
   disk (Version_changeFiles fls None d) = d \<and>
   run rt (i # sched) (Version_changeFiles fls None d) = None"
  by (simp add: Version_changeFiles_def)

subsection \<open>The parts of a match and the replacement text\<close>

lemma token_at_split: "token_at s = Some (t, r) \<Longrightarrow> s = t @ r"
proof -
  assume a: "token_at s = Some (t, r)"
  have s1: "s = takeWhile is_digit s @ dropWhile is_digit s" by simp
  show ?thesis
  proof (cases "dropWhile is_digit s")
    case Nil
    with a show ?thesis by (simp add: token_at_def)
  next
    case (Cons x r1)
    note c1 = Cons
    have s2: "r1 = takeWhile is_digit r1 @ dropWhile is_digit r1" by simp
    show ?thesis
    proof (cases "dropWhile is_digit r1")
      case Nil
      with a c1 show ?thesis by (simp add: token_at_def)
    next
      case (Cons y r2)
      note c2 = Cons
      have s3: "r2 = takeWhile is_digit r2 @ dropWhile is_digit r2" by simp
      have s4: "\<And>q. q = takeWhile is_alnum q @ dropWhile is_alnum q" by simp
      from c1 s1 have e1: "s = takeWhile is_digit s @ x # r1" by simp
      from c2 s2 have e2: "r1 = takeWhile is_digit r1 @ y # r2" by simp
      from a c1 c2 have "t @ r = takeWhile is_digit s @ x # takeWhile is_digit r1 @ y # r2"
        by (auto simp: token_at_def Let_def split: if_splits list.splits)
           (metis takeWhile_dropWhile_id)+
      with e1 e2 show ?thesis by simp
    qed
  qed
qed

lemma lazy_gap_split: "lazy_gap s = Some (g, t, r) \<Longrightarrow> s = g @ t @ r"
proof (induction s arbitrary: g)
  case Nil
  then show ?case by simp
next
  case (Cons c cs)
  show ?case
  proof (cases "token_at (c # cs)")
    case None
    with Cons.prems obtain g' where "lazy_gap cs = Some (g', t, r)" "g = c # g'"
      by (auto split: if_splits option.splits)
    with Cons.IH show ?thesis by simp
  next
    case (Some p)
    with Cons.prems have "g = []" "token_at (c # cs) = Some (t, r)"
      by (auto split: prod.splits)
    then show ?thesis using token_at_split by simp
  qed
qed

lemma match_here_split: "match_here prev s = Some (g1, g2, r) \<Longrightarrow> s = g1 @ g2 @ r"
proof -
  assume a: "match_here prev s = Some (g1, g2, r)"
  then have t: "take 7 s = ''VERSION''"
    by (simp add: match_here_def split: if_splits)
  from a obtain g where g: "lazy_gap (drop 7 s) = Some (g, g2, r)" "g1 = ''VERSION'' @ g"
    by (auto simp: match_here_def split: if_splits option.splits)
  have "s = take 7 s @ drop 7 s" by simp
  with t g lazy_gap_split [OF g(1)] show ?thesis by (metis append.assoc)
qed



lemma GetSubstitution_plain:
  "CHR ''$'' \<notin> set t \<Longrightarrow> GetSubstitution m b a caps t = t"
  by (induction m b a caps t rule: GetSubstitution.induct) auto

lemma digits_value_two: "is_digit e \<Longrightarrow> digits_value [CHR ''1'', e] \<ge> 10"
  by (simp add: digits_value_def)

lemma GetSubstitution_group1:
  "GetSubstitution m b a [g1, g2] (CHR ''$'' # CHR ''1'' # v) = g1 @ GetSubstitution m b a [g1, g2] v"
proof (cases v)
  case Nil
  then show ?thesis by (simp add: is_digit_def digits_value_def)
next
  case (Cons e r)
  show ?thesis
  proof (cases "is_digit e")
    case True
    with digits_value_two [of e] have "\<not> digits_value [CHR ''1'', e] \<le> 2" by simp
    with Cons show ?thesis by (simp add: is_digit_def digits_value_def)
  next
    case False
    with Cons show ?thesis by (simp add: is_digit_def digits_value_def)
  qed
qed

lemma replace_no_match: "VERSION_exec s = None \<Longrightarrow> replace_VERSION s t = s"
  by (simp add: replace_VERSION_def)

lemma replace_match:
  "VERSION_exec s = Some (b, g1, g2, a) \<Longrightarrow> CHR ''$'' \<notin> set v \<Longrightarrow>
     replace_VERSION s (''$1'' @ v) = b @ g1 @ v @ a"
  by (simp add: replace_VERSION_def GetSubstitution_group1 GetSubstitution_plain del: GetSubstitution.simps)

lemma map_upd_same: "files d p = Some s \<Longrightarrow> d\<lparr>files := (files d)(p \<mapsto> s)\<rparr> = d"
  by (simp add: map_upd_triv)

lemma change_no_match:
  assumes "path_extname (file_path this) \<noteq> ''.json''"
    and "opt_type (options this) \<noteq> Some ''VERSION''"
    and "files d (file_path this) = Some s"
    and "VERSION_exec s = None"
  shows "Version_change rt d this = Inr (fs_writeFile d (file_path this) s)"
  using assms
  by (simp add: Version_change_def Version_readFile_def fs_readFile_def Version__change_def
      typeof_object_def Version_writeFile_def write_text_def replace_no_match)

lemma basename_VERSION_extname: "path_basename f = ''VERSION'' \<Longrightarrow> path_extname f = []"
  by (simp add: path_extname_def)

subsection \<open>The characters of a valid version\<close>

lemma split_on_not_Nil: "split_on c s \<noteq> []"
  by (induction s) (auto split: list.splits)


lemma split_first_None: "split_first c s = (x, None) \<Longrightarrow> s = x \<and> c \<notin> set s"
  by (auto simp: split_first_def split: list.splits)

lemma split_first_Some: "split_first c s = (x, Some r) \<Longrightarrow> s = x @ c # r \<and> c \<notin> set x"
proof -
  assume a: "split_first c s = (x, Some r)"
  then obtain h where h: "dropWhile (\<lambda>y. y \<noteq> c) s = h # r" and x: "x = takeWhile (\<lambda>y. y \<noteq> c) s"
    by (auto simp: split_first_def split: list.splits)
  from h have "h = c"
    using hd_dropWhile [of "\<lambda>y. y \<noteq> c" s] by auto
  moreover have "s = takeWhile (\<lambda>y. y \<noteq> c) s @ dropWhile (\<lambda>y. y \<noteq> c) s" by simp
  ultimately have "s = x @ c # r" using h x by simp
  moreover have "c \<notin> set x" using x by (auto dest: set_takeWhileD)
  ultimately show ?thesis by simp
qed


lemma digit_idchar: "is_digit c \<Longrightarrow> is_idchar c"
  by (simp add: is_idchar_def is_alnum_def)











subsection \<open>Changing a file that holds the pattern, or does not\<close>


lemma new_Version_fields:
  "file_path (new_Version f opts) = f"
  "version (new_Version f opts) = (case opts of None \<Rightarrow> None | Some os \<Rightarrow> opt_version os)"
  "path_basename f = ''VERSION'' \<Longrightarrow> opt_type (options (new_Version f opts)) = Some ''VERSION''"
  "path_basename f \<noteq> ''VERSION'' \<Longrightarrow>
     opt_type (options (new_Version f opts)) = (case opts of None \<Rightarrow> None | Some os \<Rightarrow> opt_type os)"
  by (simp_all add: new_Version_def Let_def split: option.splits)

lemma writable_write: "p \<notin> readonly d \<Longrightarrow> fs_writeFile d p s = (None, d\<lparr>files := (files d)(p \<mapsto> s)\<rparr>)"
  by (simp add: fs_writeFile_def)



lemma index_js_exec:
  "VERSION_exec ''VERSION = 1.2.3; VERSION 1.2.3'' = Some ([], ''VERSION = '', ''1.2.3'', ''; VERSION 1.2.3'')"
  by code_simp

lemma ext_index_js: "path_extname ''index.js'' \<noteq> ''.json''"
  by code_simp





text \<open>
  C10. For a file that is neither read as JSON nor of type \<open>VERSION\<close> and whose content the
  pattern does not match, \<open>change\<close> hands the content unchanged to \<open>fs.writeFile\<close>: it reports
  what the write reports, which is success for a writable file, with the file system as
  it was. No \<open>Bad semver version\<close> error arises, whatever the stored version.
\<close>

theorem change_without_match:
  assumes "path_extname (file_path this) \<noteq> ''.json''"
    and "opt_type (options this) \<noteq> Some ''VERSION''"
    and "files d (file_path this) = Some s"
    and "VERSION_exec s = None"
  shows "Version_change rt d this = Inr (fs_writeFile d (file_path this) s) \<and>
         (file_path this \<notin> readonly d \<longrightarrow> Version_change rt d this = Inr (None, d))"
  using change_no_match [OF assms] assms(3) by (simp add: writable_write map_upd_same)

theorem change_without_match_witness:
  "files example_disk ''README.md'' = Some ''no version here'' \<and>
   VERSION_exec ''no version here'' = None \<and>
   Version_change example_runtime example_disk (new_Version ''README.md'' None) = Inr (None, example_disk)"
proof -
  let ?obj = "new_Version ''README.md'' None"
  have f: "file_path ?obj = ''README.md''"
    by (simp add: new_Version_def Let_def)
  have b: "path_basename ''README.md'' \<noteq> ''VERSION''"
    by code_simp
  then have t: "opt_type (options ?obj) \<noteq> Some ''VERSION''"
    by (simp add: new_Version_def Let_def)
  have "path_extname ''README.md'' \<noteq> ''.json''"
    by code_simp
  then have e: "path_extname (file_path ?obj) \<noteq> ''.json''"
    using f by simp
  have c: "files example_disk (file_path ?obj) = Some ''no version here''"
    using f by (simp add: example_disk_def)
  have n: "VERSION_exec ''no version here'' = None"
    by code_simp
  have w: "file_path ?obj \<notin> readonly example_disk"
    by (simp add: example_disk_def)
  from change_without_match [OF e t c n, of example_runtime] w
  have "Version_change example_runtime example_disk ?obj = Inr (None, example_disk)"
    by blast
  with f c n show ?thesis
    by simp
qed

subsection \<open>The file VERSION\<close>

lemma read_plain:
  "path_extname (file_path this) \<noteq> ''.json'' \<Longrightarrow> files d (file_path this) = Some s \<Longrightarrow>
     Version_readFile rt d this = Inr (JString s)"
  by (simp add: Version_readFile_def fs_readFile_def)

lemma extract_VERSION_type:
  assumes "path_extname (file_path this) \<noteq> ''.json''"
    and "opt_type (options this) = Some ''VERSION''"
    and "files d (file_path this) = Some s"
  shows "Version_extract rt d this =
     (if valid_semver (Some (trim s))
      then Inr ((None, Some (trim s)), this\<lparr>version := Some (trim s)\<rparr>)
      else Inr ((Some BadSemver, None), this\<lparr>version := None\<rparr>))"
  using assms
  by (simp add: Version_extract_def read_plain Version__extract_def typeof_object_def
      Version_setVersion_def valid_semver_def)

lemma change_VERSION_type:
  assumes "path_extname (file_path this) \<noteq> ''.json''"
    and "opt_type (options this) = Some ''VERSION''"
    and "files d (file_path this) = Some s"
    and "version this = Some v"
  shows "Version_change rt d this = Inr (fs_writeFile d (file_path this) v)"
  using assms
  by (simp add: Version_change_def read_plain Version__change_def typeof_object_def
      jsval_of_def Version_writeFile_def write_text_def)

lemma VERSION_type_iff:
  "(opt_type (options (new_Version f opts)) = Some ''VERSION'') =
     (path_basename f = ''VERSION'' \<or>
      (case opts of None \<Rightarrow> False | Some os \<Rightarrow> opt_type os = Some ''VERSION''))"
  by (cases "path_basename f = ''VERSION''") (simp_all add: new_Version_fields split: option.splits)

lemma change_VERSION_type_general:
  assumes "path_extname (file_path this) \<noteq> ''.json''"
    and "opt_type (options this) = Some ''VERSION''"
    and "files d (file_path this) = Some s"
  shows "Version_change rt d this =
     (case version this of
        None \<Rightarrow> Inl TypeError
      | Some v \<Rightarrow> Inr (fs_writeFile d (file_path this) v))"
  using assms
  by (simp add: Version_change_def read_plain Version__change_def typeof_object_def
      jsval_of_def Version_writeFile_def write_text_def split: option.splits)

lemma valid_1_2_3_trim: "valid_semver (Some (trim (''1.2.3'' @ [CHR 0x0A])))"
  by code_simp

lemma trim_1_2_3: "trim (''1.2.3'' @ [CHR 0x0A]) = ''1.2.3''"
  by code_simp

text \<open>
  C7, for the base name \<open>VERSION\<close> and nothing else. Whatever the options, an object whose
  file has the base name \<open>VERSION\<close>, with no extension, is of type \<open>VERSION\<close>. For such a file,
  \<open>extract\<close> returns and stores the whole content trimmed if it is a valid version, and else
  returns the error with the stored version absent; \<open>change\<close> hands the stored version, and
  nothing else, to \<open>fs.writeFile\<close>, so that it is the whole content of a writable file
  afterwards. Without a stored version there is nothing to write and \<open>fs.writeFile\<close> throws.
\<close>

theorem plain_version_file:
  "path_basename f = ''VERSION'' \<and> files d f = Some s \<longrightarrow>
      opt_type (options (new_Version f opts)) = Some ''VERSION'' \<and>
      Version_extract rt d (new_Version f opts) =
        (if valid_semver (Some (trim s))
         then Inr ((None, Some (trim s)), new_Version f opts\<lparr>version := Some (trim s)\<rparr>)
         else Inr ((Some BadSemver, None), new_Version f opts\<lparr>version := None\<rparr>)) \<and>
      Version_change rt d (new_Version f opts) =
        (case version (new_Version f opts) of
           None \<Rightarrow> Inl TypeError
         | Some v \<Rightarrow> Inr (fs_writeFile d f v)) \<and>
      (version (new_Version f opts) = Some v \<and> f \<notin> readonly d \<longrightarrow>
         Version_change rt d (new_Version f opts) = Inr (None, d\<lparr>files := (files d)(f \<mapsto> v)\<rparr>))"
proof (intro impI)
  assume a: "path_basename f = ''VERSION'' \<and> files d f = Some s"
  let ?obj = "new_Version f opts"
  from a have b: "path_basename f = ''VERSION''" and c: "files d f = Some s"
    by simp_all
  have t: "opt_type (options ?obj) = Some ''VERSION''"
    using b by (simp add: new_Version_fields)
  have e: "path_extname (file_path ?obj) \<noteq> ''.json''"
    using basename_VERSION_extname [OF b] by (simp add: new_Version_fields)
  have c': "files d (file_path ?obj) = Some s"
    using c by (simp add: new_Version_fields)
  have x: "Version_extract rt d ?obj =
      (if valid_semver (Some (trim s))
       then Inr ((None, Some (trim s)), ?obj\<lparr>version := Some (trim s)\<rparr>)
       else Inr ((Some BadSemver, None), ?obj\<lparr>version := None\<rparr>))"
    by (rule extract_VERSION_type [OF e t c'])
  have g: "Version_change rt d ?obj =
      (case version ?obj of None \<Rightarrow> Inl TypeError | Some v \<Rightarrow> Inr (fs_writeFile d f v))"
    using change_VERSION_type_general [OF e t c', of rt]
    by (simp only: new_Version_fields(1))
  have y: "Version_change rt d ?obj = Inr (None, d\<lparr>files := (files d)(f \<mapsto> v)\<rparr>)"
    if "version ?obj = Some v" "f \<notin> readonly d"
    using g that by (simp add: writable_write)
  from t x g y show "opt_type (options ?obj) = Some ''VERSION'' \<and>
      Version_extract rt d ?obj =
        (if valid_semver (Some (trim s))
         then Inr ((None, Some (trim s)), ?obj\<lparr>version := Some (trim s)\<rparr>)
         else Inr ((Some BadSemver, None), ?obj\<lparr>version := None\<rparr>)) \<and>
      Version_change rt d ?obj =
        (case version ?obj of None \<Rightarrow> Inl TypeError | Some v \<Rightarrow> Inr (fs_writeFile d f v)) \<and>
      (version ?obj = Some v \<and> f \<notin> readonly d \<longrightarrow>
         Version_change rt d ?obj = Inr (None, d\<lparr>files := (files d)(f \<mapsto> v)\<rparr>))"
    by blast
qed

theorem plain_version_file_witness:
  "path_basename ''VERSION'' = ''VERSION'' \<and>
   files example_disk ''VERSION'' = Some (''1.2.3'' @ [CHR 0x0A]) \<and>
   Version_extract example_runtime example_disk (new_Version ''VERSION'' None) =
     Inr ((None, Some ''1.2.3''), new_Version ''VERSION'' None\<lparr>version := Some ''1.2.3''\<rparr>) \<and>
   Version_change example_runtime example_disk
     (new_Version ''VERSION'' (Some \<lparr>opt_version = Some ''2.0.0'', opt_cmd = None, opt_type = None\<rparr>)) =
     Inr (None, example_disk\<lparr>files := (files example_disk)(''VERSION'' \<mapsto> ''2.0.0'')\<rparr>)"
proof -
  let ?os = "Some \<lparr>opt_version = Some ''2.0.0'', opt_cmd = None, opt_type = None\<rparr>"
  have b: "path_basename ''VERSION'' = ''VERSION''"
    by code_simp
  have c: "files example_disk ''VERSION'' = Some (''1.2.3'' @ [CHR 0x0A])"
    by (simp add: example_disk_def)
  have w: "''VERSION'' \<notin> readonly example_disk"
    by (simp add: example_disk_def)
  have v: "version (new_Version ''VERSION'' ?os) = Some ''2.0.0''"
    by (simp add: new_Version_fields)
  from plain_version_file [of "''VERSION''" example_disk "''1.2.3'' @ [CHR 0x0A]" None example_runtime "''2.0.0''"]
    b c valid_1_2_3_trim
  have x: "Version_extract example_runtime example_disk (new_Version ''VERSION'' None) =
     Inr ((None, Some (trim (''1.2.3'' @ [CHR 0x0A]))),
          new_Version ''VERSION'' None\<lparr>version := Some (trim (''1.2.3'' @ [CHR 0x0A]))\<rparr>)"
    by presburger
  from plain_version_file [of "''VERSION''" example_disk "''1.2.3'' @ [CHR 0x0A]" ?os example_runtime "''2.0.0''"]
    b c v w
  have y: "Version_change example_runtime example_disk (new_Version ''VERSION'' ?os) =
     Inr (None, example_disk\<lparr>files := (files example_disk)(''VERSION'' \<mapsto> ''2.0.0'')\<rparr>)"
    by blast
  from b c x y show ?thesis
    by (simp only: trim_1_2_3)
qed

text \<open>
  C7 does not hold for \<open>VERSION.txt\<close>, a file name \<open>VERSION\<close> with an extension: the object is
  not of type \<open>VERSION\<close>, \<open>extract\<close> on the content \<open>1.2.3\<close> and a line feed finds no version, and
  \<open>change\<close> to \<open>2.0.0\<close> leaves the content as it is. Nor does it hold for \<open>lib/VERSION\<close> with
  the content \<open>soon\<close>, which \<open>extract\<close> does not return, nor for a \<open>change\<close> without a stored
  version, which writes nothing.
\<close>

theorem VERSION_txt_counterexample:
  "files example_disk ''VERSION.txt'' = Some (''1.2.3'' @ [CHR 0x0A]) \<and>
   opt_type (options (new_Version ''VERSION.txt'' None)) \<noteq> Some ''VERSION'' \<and>
   Version_extract example_runtime example_disk (new_Version ''VERSION.txt'' None) =
     Inr ((Some BadSemver, None), new_Version ''VERSION.txt'' None) \<and>
   Version_change example_runtime example_disk
     (new_Version ''VERSION.txt''
        (Some \<lparr>opt_version = Some ''2.0.0'', opt_cmd = None, opt_type = None\<rparr>)) =
     Inr (None, example_disk) \<and>
   files example_disk ''lib/VERSION'' = Some ''soon'' \<and>
   opt_type (options (new_Version ''lib/VERSION'' None)) = Some ''VERSION'' \<and>
   Version_extract example_runtime example_disk (new_Version ''lib/VERSION'' None) =
     Inr ((Some BadSemver, None), new_Version ''lib/VERSION'' None) \<and>
   version (new_Version ''lib/VERSION'' None) = None \<and>
   Version_change example_runtime example_disk (new_Version ''lib/VERSION'' None) = Inl TypeError"
proof -
  let ?os = "Some \<lparr>opt_version = Some ''2.0.0'', opt_cmd = None, opt_type = None\<rparr>"
  have b: "path_basename ''VERSION.txt'' \<noteq> ''VERSION''"
    by code_simp
  have e: "path_extname ''VERSION.txt'' \<noteq> ''.json''"
    by code_simp
  have c: "files example_disk ''VERSION.txt'' = Some (''1.2.3'' @ [CHR 0x0A])"
    by (simp add: example_disk_def)
  have n: "VERSION_exec (''1.2.3'' @ [CHR 0x0A]) = None"
    by code_simp
  have t: "opt_type (options (new_Version ''VERSION.txt'' opts)) \<noteq> Some ''VERSION''"
    if "opts = None \<or> opts = ?os" for opts
    using b that by (auto simp: new_Version_fields)
  have i: "\<not> truthy (semver_valid None)"
    by code_simp
  have x: "Version_extract example_runtime example_disk (new_Version ''VERSION.txt'' None) =
     Inr ((Some BadSemver, None), new_Version ''VERSION.txt'' None)"
    using e c n t [of None] i
    by (simp add: Version_extract_def read_plain new_Version_fields Version__extract_def
        typeof_object_def Version_setVersion_def)
  have w: "''VERSION.txt'' \<notin> readonly example_disk"
    by (simp add: example_disk_def)
  have y: "Version_change example_runtime example_disk (new_Version ''VERSION.txt'' ?os) =
     Inr (None, example_disk)"
    using change_no_match [of "new_Version ''VERSION.txt'' ?os" example_disk
        "''1.2.3'' @ [CHR 0x0A]" example_runtime] e c n t [of ?os] w
    by (simp add: new_Version_fields writable_write map_upd_same)
  let ?lib = "new_Version ''lib/VERSION'' None"
  have lb: "path_basename ''lib/VERSION'' = ''VERSION''"
    by code_simp
  have lt: "opt_type (options ?lib) = Some ''VERSION''"
    using lb by (simp add: new_Version_fields)
  have le: "path_extname (file_path ?lib) \<noteq> ''.json''"
    using basename_VERSION_extname [OF lb] by (simp add: new_Version_fields)
  have lc: "files example_disk (file_path ?lib) = Some ''soon''"
    by (simp add: new_Version_fields example_disk_def)
  have lv: "\<not> valid_semver (Some (trim ''soon''))"
    by code_simp
  have lu: "?lib\<lparr>version := None\<rparr> = ?lib"
    by (simp add: new_Version_def Let_def)
  have lx: "Version_extract example_runtime example_disk ?lib = Inr ((Some BadSemver, None), ?lib)"
    using extract_VERSION_type [OF le lt lc, of example_runtime] lv lu by simp
  have ln: "version ?lib = None"
    by (simp add: new_Version_fields)
  have ly: "Version_change example_runtime example_disk ?lib = Inl TypeError"
    using change_VERSION_type_general [OF le lt lc, of example_runtime] ln by simp
  from c t [of None] x y lc lt lx ln ly show ?thesis
    by (simp add: new_Version_fields)
qed

subsection \<open>The tasks in flight\<close>

lemma finish_fields:
  "flight (finish i e b) =
     take i (flight b) @ drop (Suc i) (flight b) @ map (start_task (wanted b)) (take 1 (queue b))"
  "queue (finish i e b) = drop 1 (queue b)"
  "wanted (finish i e b) = wanted b"
  "disk (finish i e b) = disk b"
  "uncaught (finish i e b) = uncaught b"
  by (simp_all add: finish_def Let_def)

lemma complete_wanted: "wanted (complete rt i b) = wanted b"
  by (simp add: complete_def Let_def finish_fields split: phase.splits sum.splits prod.splits)

lemma finish_capped:
  assumes "capped b" and "i < length (flight b)"
  shows "capped (finish i e b)"
proof (cases "queue b")
  case Nil
  with assms show ?thesis
    by (simp add: capped_def finish_fields)
next
  case (Cons f q)
  with assms have "length (flight b) = 5"
    by (simp add: capped_def)
  with Cons assms(2) show ?thesis
    by (simp add: capped_def finish_fields)
qed

lemma capped_fields:
  "flight b' = flight b \<Longrightarrow> queue b' = queue b \<Longrightarrow> capped b' = capped b"
  "length (flight b') = length (flight b) \<Longrightarrow> queue b' = queue b \<Longrightarrow> capped b' = capped b"
  by (simp_all add: capped_def)

lemma complete_capped:
  assumes "capped b" and "i < length (flight b)"
  shows "capped (complete rt i b)"
proof (cases "phase (flight b ! i)")
  case Reading
  show ?thesis
  proof (cases "Version_readFile rt (disk b) (target (flight b ! i))")
    case (Inl e)
    with Reading show ?thesis
      by (simp add: complete_def Let_def finish_capped [OF assms])
  next
    case (Inr data)
    with Reading assms(1) show ?thesis
      by (simp add: complete_def capped_def Let_def split: sum.splits)
  qed
next
  case (Writing s)
  obtain e d' where w: "fs_writeFile (disk b) (file_path (target (flight b ! i))) s = (e, d')"
    by (cases "fs_writeFile (disk b) (file_path (target (flight b ! i))) s")
  have "capped (b\<lparr>disk := d'\<rparr>)" "i < length (flight (b\<lparr>disk := d'\<rparr>))"
    using assms by (simp_all add: capped_def)
  then have "capped (finish i e (b\<lparr>disk := d'\<rparr>))"
    by (rule finish_capped)
  with Writing w show ?thesis
    by (simp add: complete_def Let_def)
qed

lemma run_capped: "run rt sched b0 = Some b \<Longrightarrow> capped b0 \<Longrightarrow> capped b"
proof (induction sched arbitrary: b0)
  case Nil
  then show ?case by simp
next
  case (Cons i sched)
  from Cons.prems(1) have i: "i < length (flight b0)" and r: "run rt sched (complete rt i b0) = Some b"
    by (simp_all split: if_splits)
  from Cons.IH [OF r complete_capped [OF Cons.prems(2) i]] show ?case .
qed

lemma run_wanted: "run rt sched b0 = Some b \<Longrightarrow> wanted b = wanted b0"
proof (induction sched arbitrary: b0)
  case Nil
  then show ?case by simp
next
  case (Cons i sched)
  from Cons.prems have "run rt sched (complete rt i b0) = Some b"
    by (simp split: if_splits)
  from Cons.IH [OF this] show ?case
    by (simp add: complete_wanted)
qed

lemma changeFiles_capped: "capped (Version_changeFiles fls v d)"
  by (simp add: Version_changeFiles_def capped_def)

lemma changeFiles_wanted: "wanted (Version_changeFiles fls v d) = v"
  by (simp add: Version_changeFiles_def)

lemma complete_reports:
  assumes "reports rt i b"
  shows "flight (complete rt i b) =
           take i (flight b) @ drop (Suc i) (flight b) @ map (start_task (wanted b)) (take 1 (queue b)) \<and>
         queue (complete rt i b) = drop 1 (queue b)"
proof (cases "phase (flight b ! i)")
  case Reading
  with assms obtain e where "Version_readFile rt (disk b) (target (flight b ! i)) = Inl e"
    by (auto simp: reports_def isl_def)
  with Reading show ?thesis
    by (simp add: complete_def Let_def finish_fields)
next
  case (Writing s)
  then show ?thesis
    by (simp add: complete_def Let_def finish_fields split: prod.splits)
qed

text \<open>
  C9. In every state that a batch reaches, whatever the order of the events, at most five
  tasks are in flight, and exactly five while a file waits. The event that ends the
  \<open>change\<close> of a task, with or without an error, takes the task out and starts the first
  waiting file, if there is one.
\<close>

theorem at_most_five_in_flight:
  "(run rt sched (Version_changeFiles fls v d) = Some b \<longrightarrow>
      length (flight b) \<le> 5 \<and> (if queue b = [] then True else length (flight b) = 5)) \<and>
   (run rt sched (Version_changeFiles fls v d) = Some b \<and> i < length (flight b) \<and>
    uncaught b = None \<and> reports rt i b \<longrightarrow>
      flight (complete rt i b) =
        take i (flight b) @ drop (Suc i) (flight b) @ map (start_task v) (take 1 (queue b)) \<and>
      queue (complete rt i b) = drop 1 (queue b))"
proof -
  have "capped b" "wanted b = v" if "run rt sched (Version_changeFiles fls v d) = Some b"
    using run_capped [OF that changeFiles_capped] run_wanted [OF that]
    by (simp_all add: changeFiles_wanted)
  then show ?thesis
    using complete_reports [of rt i b] by (auto simp: capped_def)
qed

lemma start_task_fields:
  "file_path (target (start_task v f)) = f" "phase (start_task v f) = Reading"
  "version (target (start_task v f)) = v"
  by (simp_all add: start_task_def new_Version_fields)

theorem at_most_five_in_flight_witness:
  "run example_runtime [] (Version_changeFiles six_files (Some ''2.0.0'') example_disk) =
     Some (Version_changeFiles six_files (Some ''2.0.0'') example_disk) \<and>
   reports example_runtime 0 (Version_changeFiles six_files (Some ''2.0.0'') example_disk) \<and>
   uncaught (Version_changeFiles six_files (Some ''2.0.0'') example_disk) = None \<and>
   length (flight (Version_changeFiles six_files (Some ''2.0.0'') example_disk)) = 5 \<and>
   queue (Version_changeFiles six_files (Some ''2.0.0'') example_disk) = [''VERSION.txt''] \<and>
   flight (complete example_runtime 0 (Version_changeFiles six_files (Some ''2.0.0'') example_disk)) =
     map (start_task (Some ''2.0.0'')) [''index.js'', ''README.md'', ''VERSION'', ''notes.txt'', ''VERSION.txt''] \<and>
   queue (complete example_runtime 0 (Version_changeFiles six_files (Some ''2.0.0'') example_disk)) = []"
proof -
  let ?b = "Version_changeFiles six_files (Some ''2.0.0'') example_disk"
  have r: "run example_runtime [] ?b = Some ?b"
    by simp
  have fl: "flight ?b = map (start_task (Some ''2.0.0''))
      [''missing.js'', ''index.js'', ''README.md'', ''VERSION'', ''notes.txt'']"
    and q: "queue ?b = [''VERSION.txt'']" and d: "disk ?b = example_disk"
    by (simp_all add: Version_changeFiles_def six_files_def)
  have "Version_readFile example_runtime example_disk (target (start_task (Some ''2.0.0'') ''missing.js''))
      = Inl (ENOENT ''missing.js'')"
    by (simp add: Version_readFile_def fs_readFile_def start_task_fields example_disk_def)
  then have p: "reports example_runtime 0 ?b"
    by (simp add: reports_def fl d start_task_fields)
  have i: "0 < length (flight ?b)" and u: "uncaught ?b = None"
    by (simp_all add: Version_changeFiles_def six_files_def)
  from at_most_five_in_flight [of example_runtime "[]" six_files "Some ''2.0.0''" example_disk ?b 0]
    r p i u
  have "flight (complete example_runtime 0 ?b) =
        take 0 (flight ?b) @ drop (Suc 0) (flight ?b) @ map (start_task (Some ''2.0.0'')) (take 1 (queue ?b)) \<and>
      queue (complete example_runtime 0 ?b) = drop 1 (queue ?b)"
    by blast
  with r p u show ?thesis
    by (simp add: fl q)
qed

subsection \<open>A file that holds the JSON document null\<close>

lemma change_of_null:
  assumes "path_extname (file_path this) = ''.json''"
    and "files d (file_path this) = Some s"
    and "JSON_parse rt s = Some JNull"
  shows "Version_change rt d this = Inl TypeError"
  using assms
  by (simp add: Version_change_def Version_readFile_def fs_readFile_def Version__change_def
      typeof_object_def get_version_def)

lemma data_json_crash:
  "complete example_runtime 0 (Version_changeFiles [''data.json'', ''index.js''] (Some ''2.0.0'') example_disk) =
     Version_changeFiles [''data.json'', ''index.js''] (Some ''2.0.0'') example_disk\<lparr>uncaught := Some TypeError\<rparr>"
proof -
  have e: "path_extname ''data.json'' = ''.json''"
    by code_simp
  have "Version_readFile example_runtime example_disk (target (start_task (Some ''2.0.0'') ''data.json'')) = Inr JNull"
    by (simp add: Version_readFile_def fs_readFile_def start_task_fields example_disk_def e example_runtime_def)
  moreover have "Version__change JNull this = Inl TypeError" for this
    by (simp add: Version__change_def typeof_object_def get_version_def)
  ultimately show ?thesis
    by (simp add: complete_def Let_def Version_changeFiles_def start_task_fields)
qed

text \<open>
  C3 does not hold for a batch with a \<open>.json\<close> file whose content is the document \<open>null\<close>:
  \<open>typeof null\<close> is \<open>'object'\<close>, so \<open>_change\<close> reads \<open>data.version\<close> and the runtime throws inside
  the callback of \<open>readFile\<close>. The exception is not caught: the file is not reported in
  \<open>err\<close>, no further event of the batch runs (the second file is never written), and \<open>cb\<close> is
  never called.
\<close>

theorem null_json_stops_the_batch:
  "files example_disk ''data.json'' = Some ''null'' \<and>
   JSON_parse example_runtime ''null'' = Some JNull \<and>
   answer (Version_changeFiles [''data.json'', ''index.js''] (Some ''2.0.0'') example_disk) = None \<and>
   run example_runtime [0] (Version_changeFiles [''data.json'', ''index.js''] (Some ''2.0.0'') example_disk) =
     Some (Version_changeFiles [''data.json'', ''index.js''] (Some ''2.0.0'') example_disk
             \<lparr>uncaught := Some TypeError\<rparr>) \<and>
   run example_runtime (0 # i # sched)
     (Version_changeFiles [''data.json'', ''index.js''] (Some ''2.0.0'') example_disk) = None"
proof -
  let ?b = "Version_changeFiles [''data.json'', ''index.js''] (Some ''2.0.0'') example_disk"
  have f: "files example_disk ''data.json'' = Some ''null''"
    by (simp add: example_disk_def)
  have j: "JSON_parse example_runtime ''null'' = Some JNull"
    by (simp add: example_runtime_def)
  have b: "0 < length (flight ?b)" "uncaught ?b = None" "answer ?b = None"
    by (simp_all add: Version_changeFiles_def)
  have r1: "run example_runtime [0] ?b = Some (?b\<lparr>uncaught := Some TypeError\<rparr>)"
    using b by (simp add: data_json_crash)
  have r2: "run example_runtime (0 # i # sched) ?b = None"
    using b by (simp add: data_json_crash)
  from f j b(3) r1 r2 show ?thesis
    by blast
qed

subsection \<open>What a batch reports when no exception leaves a callback\<close>

lemma mset_without_nth:
  assumes "i < length xs"
  shows "mset (map g (take i xs @ drop (Suc i) xs)) + {#g (xs ! i)#} = mset (map g xs)"
proof -
  from assms have "xs = take i xs @ xs ! i # drop (Suc i) xs"
    by (rule id_take_nth_drop)
  then have "mset (map g xs) = mset (map g (take i xs @ xs ! i # drop (Suc i) xs))"
    by simp
  then show ?thesis
    by simp
qed

lemma map_update_same: "g x = g (xs ! i) \<Longrightarrow> map g (xs[i := x]) = map g xs"
  by (metis list_update_id map_update)

lemma mset_take_drop_1: "mset (take 1 q) + mset (drop 1 q) = mset q"
  by (metis append_take_drop_id mset_append)

lemma finish_accounted:
  assumes "accounted fls b" and "capped b" and "i < length (flight b)"
  shows "accounted fls (finish i e b)"
proof -
  let ?g = "\<lambda>t. file_path (target t)"
  let ?others = "take i (flight b) @ drop (Suc i) (flight b)"
  from assms(3) have n: "answer b = None"
    using assms(1) by (auto simp: accounted_def split: option.splits)
  let ?A = "mset (map fst (finished b))"
  let ?O = "mset (map ?g ?others)"
  let ?f = "{#?g (flight b ! i)#}"
  let ?T = "mset (take 1 (queue b))"
  let ?D = "mset (drop 1 (queue b))"
  have m: "map ?g (flight (finish i e b)) = map ?g ?others @ take 1 (queue b)"
    by (simp add: finish_fields start_task_fields comp_def)
  have e1: "mset (map fst (finished (finish i e b))) = ?A + ?f"
    by (simp add: finish_def Let_def)
  have e2: "mset (map ?g (flight (finish i e b))) = ?O + ?T"
    by (simp only: m mset_append)
  have e3: "mset (queue (finish i e b)) = ?D"
    by (simp only: finish_fields)
  have "(?A + ?f) + (?O + ?T) + ?D = ?A + (?O + ?f) + (?T + ?D)"
    by (simp only: ac_simps)
  also have "\<dots> = ?A + mset (map ?g (flight b)) + mset (queue b)"
    by (simp only: mset_without_nth [OF assms(3), of ?g] mset_take_drop_1)
  also have "\<dots> = mset fls"
    using assms(1) by (simp only: accounted_def)
  finally have k1: "mset (map fst (finished (finish i e b))) + mset (map ?g (flight (finish i e b))) +
        mset (queue (finish i e b)) = mset fls"
    by (simp only: e1 e2 e3)
  have k2: "err (finish i e b) = map fst (filter (\<lambda>p. snd p \<noteq> None) (finished (finish i e b)))"
    using assms(1) by (simp add: accounted_def finish_def Let_def)
  have k3: "(case answer (finish i e b) of
         None \<Rightarrow> flight (finish i e b) \<noteq> []
       | Some a \<Rightarrow> a = Inr (err (finish i e b)) \<and> queue (finish i e b) = [] \<and> flight (finish i e b) = [])"
  proof (cases "queue b = [] \<and> ?others = []")
    case True
    then show ?thesis
      by (simp add: finish_def Let_def)
  next
    case False
    then have "?others @ map (start_task (wanted b)) (take 1 (queue b)) \<noteq> []"
      by (cases "queue b") auto
    with False n show ?thesis
      by (simp add: finish_def Let_def)
  qed
  from k1 k2 k3 show ?thesis
    by (simp add: accounted_def)
qed

lemma accounted_uncaught: "accounted fls (b\<lparr>uncaught := x\<rparr>) = accounted fls b"
  by (simp add: accounted_def cong: option.case_cong)

lemma accounted_disk: "accounted fls (b\<lparr>disk := x\<rparr>) = accounted fls b"
  by (simp add: accounted_def cong: option.case_cong)

lemma accounted_writing:
  assumes "accounted fls b" and "i < length (flight b)"
  shows "accounted fls (b\<lparr>flight := (flight b)[i := (flight b ! i)\<lparr>phase := Writing s\<rparr>]\<rparr>)"
proof -
  have u: "map (\<lambda>t. file_path (target t)) ((flight b)[i := (flight b ! i)\<lparr>phase := Writing s\<rparr>]) =
      map (\<lambda>t. file_path (target t)) (flight b)"
    by (rule map_update_same) simp
  have l: "(flight b)[i := (flight b ! i)\<lparr>phase := Writing s\<rparr>] \<noteq> []"
    using assms(2) by auto
  from assms have n: "answer b = None"
    by (auto simp: accounted_def split: option.splits)
  from assms(1) n l show ?thesis
    unfolding accounted_def by (simp add: u del: mset_map cong: option.case_cong)
qed

lemma complete_accounted:
  assumes "accounted fls b" and "capped b" and "i < length (flight b)"
  shows "accounted fls (complete rt i b)"
proof (cases "phase (flight b ! i)")
  case Reading
  show ?thesis
  proof (cases "Version_readFile rt (disk b) (target (flight b ! i))")
    case (Inl e)
    with Reading show ?thesis
      by (simp add: complete_def Let_def finish_accounted [OF assms])
  next
    case (Inr data)
    with Reading show ?thesis
      using assms(1) accounted_writing [OF assms(1,3)]
      by (simp add: complete_def Let_def accounted_uncaught split: sum.splits)
  qed
next
  case (Writing s)
  obtain e d' where w: "fs_writeFile (disk b) (file_path (target (flight b ! i))) s = (e, d')"
    by (cases "fs_writeFile (disk b) (file_path (target (flight b ! i))) s")
  have "accounted fls (b\<lparr>disk := d'\<rparr>)" "capped (b\<lparr>disk := d'\<rparr>)" "i < length (flight (b\<lparr>disk := d'\<rparr>))"
    using assms by (simp_all add: accounted_disk capped_def)
  then have "accounted fls (finish i e (b\<lparr>disk := d'\<rparr>))"
    by (rule finish_accounted)
  with Writing w show ?thesis
    by (simp add: complete_def Let_def)
qed

lemma run_accounted:
  "run rt sched b0 = Some b \<Longrightarrow> accounted fls b0 \<Longrightarrow> capped b0 \<Longrightarrow> accounted fls b"
proof (induction sched arbitrary: b0)
  case Nil
  then show ?case by simp
next
  case (Cons i sched)
  from Cons.prems(1) have i: "i < length (flight b0)" and r: "run rt sched (complete rt i b0) = Some b"
    by (simp_all split: if_splits)
  from Cons.IH [OF r complete_accounted [OF Cons.prems(2,3) i] complete_capped [OF Cons.prems(3) i]]
  show ?case .
qed

lemma changeFiles_accounted: "accounted fls (Version_changeFiles fls (Some v) d)"
proof -
  have "mset (take 5 fls) + mset (drop 5 fls) = mset fls"
    by (metis append_take_drop_id mset_append)
  then show ?thesis
    by (simp add: accounted_def Version_changeFiles_def start_task_fields comp_def)
qed

lemma batch_outcome:
  assumes "run rt sched (Version_changeFiles fls (Some v) d) = Some b"
  shows "mset (map fst (finished b)) + mset (map (\<lambda>t. file_path (target t)) (flight b)) +
           mset (queue b) = mset fls"
    and "answer b = Some a \<Longrightarrow>
           a = Inr (map fst (filter (\<lambda>p. snd p \<noteq> None) (finished b))) \<and>
           mset (map fst (finished b)) = mset fls"
    and "flight b = [] \<Longrightarrow> answer b \<noteq> None"
  using run_accounted [OF assms changeFiles_accounted changeFiles_capped]
  by (auto simp: accounted_def split: option.splits)

subsection \<open>Parsed and incremented versions are well formed\<close>

lemma to_identifier_wf: "prerelease_ok l s \<Longrightarrow> wf_ident (to_identifier s)"
  by (simp add: prerelease_ok_def to_identifier_def)

lemma parse_prerelease_wf: "parse_prerelease l p = Some ids \<Longrightarrow> list_all wf_ident ids"
proof -
  assume "parse_prerelease l p = Some ids"
  then have ok: "\<forall>x\<in>set (split_on CHR ''.'' p). prerelease_ok l x"
    and ids: "ids = map to_identifier (split_on CHR ''.'' p)"
    by (auto simp: parse_prerelease_def Let_def list_all_iff split: if_splits)
  from ok have "\<forall>x\<in>set (split_on CHR ''.'' p). wf_ident (to_identifier x)"
    using to_identifier_wf by blast
  with ids show ?thesis
    by (simp add: list_all_iff)
qed

lemma loose_tail_wf: "loose_tail r = Some ids \<Longrightarrow> list_all wf_ident ids"
  by (auto simp: loose_tail_def parse_prerelease_wf split: list.splits if_splits option.splits)

lemma loose_patch_wf: "loose_patch k ds r = Some (n, ids) \<Longrightarrow> list_all wf_ident ids"
  by (induction k) (auto simp: loose_tail_wf split: option.splits)

lemma parse_loose_wf: "parse_loose s = Some sv \<Longrightarrow> well_formed sv"
  by (auto simp: parse_loose_def Let_def well_formed_def loose_patch_wf
      split: prod.splits option.splits list.splits if_splits)

lemma semver_parse_loose_wf: "semver_parse v True = Some sv \<Longrightarrow> well_formed sv"
  by (auto simp: semver_parse_def Let_def parse_loose_wf split: option.splits)

lemma bump_numeric_wf:
  "bump_numeric ids = Some r \<Longrightarrow> list_all wf_ident ids \<Longrightarrow> list_all wf_ident r"
  by (induction ids arbitrary: r rule: bump_numeric.induct) auto

lemma inc_pre_wf: "well_formed sv \<Longrightarrow> well_formed (inc_pre sv)"
proof -
  assume w: "well_formed sv"
  show ?thesis
  proof (cases "bump_numeric (rev (prerelease sv))")
    case None
    with w show ?thesis
      by (simp add: inc_pre_def well_formed_def)
  next
    case (Some r)
    from w have "list_all wf_ident (rev (prerelease sv))"
      by (simp add: well_formed_def)
    from bump_numeric_wf [OF Some this] have "list_all wf_ident (rev r)"
      by simp
    with Some w show ?thesis
      by (simp add: inc_pre_def well_formed_def)
  qed
qed

lemma well_formed_empty [simp]: "well_formed (sv\<lparr>prerelease := []\<rparr>)"
  by (simp add: well_formed_def)

lemma well_formed_fields [simp]:
  "well_formed (sv\<lparr>major := a\<rparr>) = well_formed sv"
  "well_formed (sv\<lparr>minor := a\<rparr>) = well_formed sv"
  "well_formed (sv\<lparr>patch := a\<rparr>) = well_formed sv"
  by (simp_all add: well_formed_def)

lemma inc_patch_wf: "well_formed (inc_patch sv)"
  by (simp add: inc_patch_def)

lemma SemVer_inc_wf: "SemVer_inc c sv = Inr sv' \<Longrightarrow> well_formed sv \<Longrightarrow> well_formed sv'"
  by (auto simp: SemVer_inc_def inc_pre_wf inc_patch_wf split: if_splits)

subsection \<open>A formatted version is valid\<close>

lemma digit_char_digit: "d < 10 \<Longrightarrow> is_digit (digit_char d)"
proof -
  assume "d < 10"
  then have "d = 0 \<or> d = 1 \<or> d = 2 \<or> d = 3 \<or> d = 4 \<or> d = 5 \<or> d = 6 \<or> d = 7 \<or> d = 8 \<or> d = 9"
    by arith
  then show ?thesis
    by (elim disjE) (simp_all add: digit_char_def is_digit_def)
qed

lemma digit_char_nonzero: "0 < d \<Longrightarrow> d < 10 \<Longrightarrow> digit_char d \<noteq> CHR ''0''"
proof -
  assume "0 < d" "d < 10"
  then have "d = 1 \<or> d = 2 \<or> d = 3 \<or> d = 4 \<or> d = 5 \<or> d = 6 \<or> d = 7 \<or> d = 8 \<or> d = 9"
    by arith
  then show ?thesis
    by (elim disjE) (simp_all add: digit_char_def)
qed

lemma show_nat_not_Nil: "show_nat n \<noteq> []"
  by (subst show_nat.simps) simp

lemma show_nat_digits: "list_all is_digit (show_nat n)"
proof (induction n rule: show_nat.induct)
  case (1 n)
  show ?case
  proof (cases "n < 10")
    case True
    then show ?thesis
      by (subst show_nat.simps) (simp add: digit_char_digit)
  next
    case False
    with 1 show ?thesis
      by (subst show_nat.simps) (simp add: digit_char_digit)
  qed
qed

lemma show_nat_0: "show_nat 0 = ''0''"
  by (subst show_nat.simps) (simp add: digit_char_def)

lemma show_nat_hd: "0 < n \<Longrightarrow> hd (show_nat n) \<noteq> CHR ''0''"
proof (induction n rule: show_nat.induct)
  case (1 n)
  show ?case
  proof (cases "n < 10")
    case True
    with 1(2) show ?thesis
      by (subst show_nat.simps) (simp add: digit_char_nonzero)
  next
    case False
    then have "0 < n div 10" by simp
    with 1(1) False have "hd (show_nat (n div 10)) \<noteq> CHR ''0''" by simp
    with False show ?thesis
      by (subst show_nat.simps) (simp add: show_nat_not_Nil)
  qed
qed

lemma show_nat_numeric_ok: "numeric_ok False (show_nat n)"
proof (cases "n = 0")
  case True
  then show ?thesis
    by (simp add: numeric_ok_def show_nat_0 is_digit_def)
next
  case False
  then show ?thesis
    by (simp add: numeric_ok_def show_nat_not_Nil show_nat_digits show_nat_hd)
qed

lemma digits_no_sep:
  "list_all is_digit s \<Longrightarrow> CHR ''.'' \<notin> set s \<and> CHR ''-'' \<notin> set s \<and> CHR ''+'' \<notin> set s"
  by (auto simp: list_all_iff is_digit_def)

lemma idchars_no_sep:
  "list_all is_idchar s \<Longrightarrow> CHR ''.'' \<notin> set s \<and> CHR ''+'' \<notin> set s"
  by (auto simp: list_all_iff is_idchar_def is_alnum_def is_alpha_def is_digit_def)

lemma split_on_none: "c \<notin> set a \<Longrightarrow> split_on c a = [a]"
  by (induction a) auto

lemma split_on_append: "c \<notin> set a \<Longrightarrow> split_on c (a @ c # r) = a # split_on c r"
  by (induction a) auto

lemma split_on_join:
  "parts \<noteq> [] \<Longrightarrow> \<forall>p\<in>set parts. CHR ''.'' \<notin> set p \<Longrightarrow>
     split_on CHR ''.'' (join_dots parts) = parts"
proof (induction parts rule: join_dots.induct)
  case 1
  then show ?case by simp
next
  case (2 s)
  then show ?case by (simp add: split_on_none)
next
  case (3 s t ss)
  then show ?case by (simp add: split_on_append)
qed

lemma split_first_none: "c \<notin> set s \<Longrightarrow> split_first c s = (s, None)"
proof -
  assume "c \<notin> set s"
  then have h: "dropWhile (\<lambda>x. x \<noteq> c) s = []"
    by auto
  show ?thesis
    unfolding split_first_def h by simp
qed

lemma split_first_append: "c \<notin> set a \<Longrightarrow> split_first c (a @ c # r) = (a, Some r)"
proof -
  assume a: "c \<notin> set a"
  then have "dropWhile (\<lambda>x. x \<noteq> c) (a @ c # r) = c # r"
    by (induction a) auto
  moreover from a have "takeWhile (\<lambda>x. x \<noteq> c) (a @ c # r) = a"
    by (induction a) auto
  ultimately show ?thesis
    by (simp add: split_first_def)
qed

lemma trim_id: "s \<noteq> [] \<Longrightarrow> \<not> is_space (hd s) \<Longrightarrow> \<not> is_space (last s) \<Longrightarrow> trim s = s"
proof -
  assume a: "s \<noteq> []" "\<not> is_space (hd s)" "\<not> is_space (last s)"
  then have "dropWhile is_space s = s"
    by (simp add: dropWhile_eq_self_iff)
  moreover from a have "dropWhile is_space (rev s) = rev s"
    by (simp add: dropWhile_eq_self_iff hd_rev)
  ultimately show ?thesis
    by (simp add: trim_def)
qed

lemma digit_not_space: "is_digit c \<Longrightarrow> \<not> is_space c"
  by (auto simp: is_digit_def is_space_def)

lemma idchar_not_space: "is_idchar c \<Longrightarrow> \<not> is_space c"
  by (auto simp: is_idchar_def is_alnum_def is_alpha_def is_digit_def is_space_def)

lemma show_identifier_ok: "wf_ident i \<Longrightarrow> prerelease_ok False (show_identifier i)"
proof (cases i)
  case (Numeric n)
  have "list_all is_idchar (show_nat n)"
    using show_nat_digits [of n] by (auto simp: list_all_iff digit_idchar)
  with Numeric show ?thesis
    by (simp add: show_identifier_def prerelease_ok_def show_nat_not_Nil show_nat_numeric_ok)
next
  case (Alphanumeric s)
  assume "wf_ident i"
  with Alphanumeric show ?thesis
    by (simp add: show_identifier_def prerelease_ok_def)
qed

lemma join_dots_chars:
  "c \<in> set (join_dots parts) \<Longrightarrow> c = CHR ''.'' \<or> (\<exists>p\<in>set parts. c \<in> set p)"
  by (induction parts rule: join_dots.induct) auto

lemma format_not_Nil: "SemVer_format sv \<noteq> []"
  by (simp add: SemVer_format_def show_nat_not_Nil)

lemma parse_prerelease_format:
  assumes "list_all wf_ident ids" and "ids \<noteq> []"
  shows "parse_prerelease False (join_dots (map show_identifier ids)) =
           Some (map to_identifier (map show_identifier ids))"
proof -
  let ?parts = "map show_identifier ids"
  have ok: "\<forall>p\<in>set ?parts. prerelease_ok False p"
    using assms(1) show_identifier_ok by (auto simp: list_all_iff)
  then have "\<forall>p\<in>set ?parts. CHR ''.'' \<notin> set p"
    using idchars_no_sep by (auto simp: prerelease_ok_def)
  with assms(2) have "split_on CHR ''.'' (join_dots ?parts) = ?parts"
    by (simp add: split_on_join)
  with ok show ?thesis
    by (simp add: parse_prerelease_def list_all_iff)
qed

lemma parse_strict_format:
  assumes "well_formed sv"
  shows "parse_strict (SemVer_format sv) \<noteq> None"
proof -
  let ?M = "show_nat (major sv)" and ?m = "show_nat (minor sv)" and ?p = "show_nat (patch sv)"
  let ?main = "?M @ CHR ''.'' # ?m @ CHR ''.'' # ?p"
  let ?J = "join_dots (map show_identifier (prerelease sv))"
  have nM: "CHR ''.'' \<notin> set ?M" "CHR ''-'' \<notin> set ?M" "CHR ''+'' \<notin> set ?M"
    and nm: "CHR ''.'' \<notin> set ?m" "CHR ''-'' \<notin> set ?m" "CHR ''+'' \<notin> set ?m"
    and np: "CHR ''.'' \<notin> set ?p" "CHR ''-'' \<notin> set ?p" "CHR ''+'' \<notin> set ?p"
    using digits_no_sep [OF show_nat_digits] by simp_all
  have main3: "split_on CHR ''.'' ?main = [?M, ?m, ?p]"
    using nM(1) nm(1) np(1) by (simp add: split_on_append split_on_none)
  have dash: "CHR ''-'' \<notin> set ?main" and plus: "CHR ''+'' \<notin> set ?main"
    using nM nm np by simp_all
  have ids: "list_all wf_ident (prerelease sv)"
    using assms by (simp add: well_formed_def)
  show ?thesis
  proof (cases "prerelease sv = []")
    case True
    then have f: "SemVer_format sv = ?main"
      by (simp add: SemVer_format_def)
    have "split_first CHR ''+'' ?main = (?main, None)"
      using plus by (rule split_first_none)
    moreover have "split_first CHR ''-'' ?main = (?main, None)"
      using dash by (rule split_first_none)
    ultimately show ?thesis
      unfolding f parse_strict_def
      by (simp add: parse_build_def main3 show_nat_numeric_ok del: split_on.simps)
  next
    case False
    then have f: "SemVer_format sv = ?main @ CHR ''-'' # ?J"
      by (simp add: SemVer_format_def)
    have "CHR ''+'' \<notin> set ?J"
    proof
      assume "CHR ''+'' \<in> set ?J"
      from join_dots_chars [OF this] obtain q where
        "q \<in> set (map show_identifier (prerelease sv))" "CHR ''+'' \<in> set q"
        by auto
      then obtain i where "i \<in> set (prerelease sv)" "CHR ''+'' \<in> set (show_identifier i)"
        by auto
      with ids show_identifier_ok [of i] idchars_no_sep [of "show_identifier i"] show False
        by (auto simp: list_all_iff prerelease_ok_def)
    qed
    with plus have "CHR ''+'' \<notin> set (?main @ CHR ''-'' # ?J)"
      by simp
    then have s1: "split_first CHR ''+'' (?main @ CHR ''-'' # ?J) = (?main @ CHR ''-'' # ?J, None)"
      by (rule split_first_none)
    have s2: "split_first CHR ''-'' (?main @ CHR ''-'' # ?J) = (?main, Some ?J)"
      using dash by (rule split_first_append)
    have pre: "parse_prerelease False ?J \<noteq> None"
      using parse_prerelease_format [OF ids False] by simp
    from s1 s2 pre show ?thesis
      unfolding f parse_strict_def
      by (auto simp: parse_build_def main3 show_nat_numeric_ok simp del: split_on.simps)
  qed
qed

lemma format_chars:
  assumes "well_formed sv" and "c \<in> set (SemVer_format sv)"
  shows "is_idchar c \<or> c = CHR ''.''"
proof -
  have d: "x \<in> set (show_nat n) \<Longrightarrow> is_idchar x" for x n
    using show_nat_digits [of n] by (auto simp: list_all_iff digit_idchar)
  have j: "x \<in> set (join_dots (map show_identifier (prerelease sv))) \<Longrightarrow> is_idchar x \<or> x = CHR ''.''" for x
  proof -
    assume "x \<in> set (join_dots (map show_identifier (prerelease sv)))"
    from join_dots_chars [OF this] show ?thesis
    proof
      assume "x = CHR ''.''"
      then show ?thesis by simp
    next
      assume "\<exists>p\<in>set (map show_identifier (prerelease sv)). x \<in> set p"
      then obtain i where i: "i \<in> set (prerelease sv)" "x \<in> set (show_identifier i)"
        by auto
      with assms(1) have "prerelease_ok False (show_identifier i)"
        using show_identifier_ok by (auto simp: well_formed_def list_all_iff)
      with i(2) show ?thesis
        by (auto simp: prerelease_ok_def list_all_iff)
    qed
  qed
  from assms(2) show ?thesis
    using d j by (auto simp: SemVer_format_def is_idchar_def split: if_splits)
qed

lemma format_valid:
  assumes "well_formed sv"
  shows "valid_semver (Some (SemVer_format sv))"
proof -
  let ?F = "SemVer_format sv"
  have ne: "?F \<noteq> []"
    by (rule format_not_Nil)
  have ns: "c \<in> set ?F \<Longrightarrow> \<not> is_space c" for c
    using format_chars [OF assms, of c] idchar_not_space [of c]
    by (auto simp: is_space_def)
  from ne have "hd ?F \<in> set ?F" "last ?F \<in> set ?F"
    by simp_all
  with ns have "\<not> is_space (hd ?F)" "\<not> is_space (last ?F)"
    by blast+
  with ne have t: "trim ?F = ?F"
    by (rule trim_id)
  have "hd ?F = hd (show_nat (major sv))"
    by (simp add: SemVer_format_def show_nat_not_Nil)
  moreover have "is_digit (hd (show_nat (major sv)))"
    using show_nat_digits [of "major sv"] show_nat_not_Nil [of "major sv"]
    by (cases "show_nat (major sv)") simp_all
  ultimately have "hd ?F \<noteq> CHR ''v''"
    by (auto simp: is_digit_def)
  with ne have v: "(case ?F of [] \<Rightarrow> [] | c # r \<Rightarrow> if c = CHR ''v'' then r else ?F) = ?F"
    by (cases ?F) simp_all
  from parse_strict_format [OF assms] obtain sv' where "parse_strict ?F = Some sv'"
    by auto
  with t v show ?thesis
    by (simp add: valid_semver_def semver_valid_def semver_parse_def truthy_def format_not_Nil)
qed

subsection \<open>The stored version\<close>

lemma setVersion_valid: "stored_valid (snd (Version_setVersion v this))"
  by (cases v) (simp_all add: Version_setVersion_def stored_valid_def valid_semver_def)

lemma private_extract_valid: "Version__extract data this = Inr (e, that) \<Longrightarrow> stored_valid that"
proof -
  assume "Version__extract data this = Inr (e, that)"
  then obtain v where "that = snd (Version_setVersion v this)"
    by (auto simp: Version__extract_def split: if_splits sum.splits jsval.splits) (metis snd_conv)+
  then show ?thesis
    by (simp add: setVersion_valid)
qed

lemma extract_valid:
  assumes "Version_extract rt d this = Inr (r, that)" and "stored_valid this"
  shows "stored_valid that"
proof (cases "Version_readFile rt d this")
  case (Inl e)
  with assms show ?thesis
    by (simp add: Version_extract_def)
next
  case (Inr data)
  with assms(1) obtain e where "Version__extract data this = Inr (e, that)"
    by (auto simp: Version_extract_def split: sum.splits)
  then show ?thesis
    by (rule private_extract_valid)
qed

lemma inc_result_valid:
  assumes "Version_inc c this = Inr (Some w, that)"
  shows "version that = Some w \<and> valid_semver (Some w)"
proof -
  from assms obtain s where s: "semver_parse (version this) True = Some s"
    by (auto simp: Version_inc_def Let_def split: option.splits)
  then have ws: "well_formed s"
    by (rule semver_parse_loose_wf)
  show ?thesis
  proof (cases "command_of c this = ''same''")
    case True
    with assms s have "w = SemVer_format s" "version that = Some w"
      by (auto simp: Version_inc_def Let_def split: if_splits)
    with ws show ?thesis
      by (simp add: format_valid)
  next
    case False
    with assms s obtain s' where s': "SemVer_inc (command_of c this) s = Inr s'"
      and w: "w = SemVer_format s'" "version that = Some w"
      by (auto simp: Version_inc_def Let_def split: if_splits sum.splits)
    from SemVer_inc_wf [OF s' ws] w show ?thesis
      by (simp add: format_valid)
  qed
qed

lemma inc_none_same:
  assumes "Version_inc c this = Inr (None, that)"
  shows "that = this"
  using assms by (auto simp: Version_inc_def Let_def split: option.splits if_splits sum.splits)

lemma inc_valid:
  assumes "Version_inc c this = Inr (r, that)" and "stored_valid this"
  shows "stored_valid that"
proof (cases r)
  case None
  with assms inc_none_same show ?thesis
    by blast
next
  case (Some w)
  with assms(1) inc_result_valid [of c this w that] show ?thesis
    by (simp add: stored_valid_def)
qed

lemma new_Version_valid:
  "stored_valid (new_Version f opts) =
     (case opts of
        None \<Rightarrow> True
      | Some os \<Rightarrow> (case opt_version os of None \<Rightarrow> True | Some v \<Rightarrow> valid_semver (Some v)))"
  by (simp add: stored_valid_def new_Version_fields split: option.splits)

text \<open>
  C8, with the constructor as it is. The constructor stores the option \<open>version\<close> as it is: the stored version
  of a new object is absent or valid exactly when the option is. After \<open>setVersion\<close> and after
  \<open>_extract\<close> the stored version is absent or valid, whatever it was; \<open>extract\<close> and \<open>inc\<close> keep it
  absent or valid, and a version that \<open>inc\<close> returns is stored and valid. \<open>change\<close> has no
  access to the stored version but to read it.
\<close>

theorem stored_version_valid:
  "stored_valid (new_Version f opts) =
     (case opts of
        None \<Rightarrow> True
      | Some os \<Rightarrow> (case opt_version os of None \<Rightarrow> True | Some v \<Rightarrow> valid_semver (Some v))) \<and>
   stored_valid (snd (Version_setVersion v this)) \<and>
   (Version__extract data this = Inr (e, x1) \<longrightarrow> stored_valid x1) \<and>
   (Version_extract rt d this = Inr (r2, x2) \<and> stored_valid this \<longrightarrow> stored_valid x2) \<and>
   (Version_inc c this = Inr (r3, x3) \<and> stored_valid this \<longrightarrow> stored_valid x3) \<and>
   (Version_inc c this = Inr (Some w, x4) \<longrightarrow> version x4 = Some w \<and> valid_semver (Some w))"
proof (intro conjI impI)
  show "stored_valid (new_Version f opts) =
     (case opts of
        None \<Rightarrow> True
      | Some os \<Rightarrow> (case opt_version os of None \<Rightarrow> True | Some v \<Rightarrow> valid_semver (Some v)))"
    by (rule new_Version_valid)
  show "stored_valid (snd (Version_setVersion v this))"
    by (rule setVersion_valid)
  show "stored_valid x1" if "Version__extract data this = Inr (e, x1)"
    using that by (rule private_extract_valid)
  show "stored_valid x2" if "Version_extract rt d this = Inr (r2, x2) \<and> stored_valid this"
    using that extract_valid by blast
  show "stored_valid x3" if "Version_inc c this = Inr (r3, x3) \<and> stored_valid this"
    using that inc_valid by blast
  show "version x4 = Some w" "valid_semver (Some w)" if "Version_inc c this = Inr (Some w, x4)"
    using inc_result_valid [OF that] by simp_all
qed

lemma abc_invalid: "\<not> valid_semver (Some ''abc'')"
  by code_simp

text \<open>
  C8 does not hold at construction: with the option \<open>version\<close> set to \<open>abc\<close>, the stored
  version is \<open>abc\<close>, which is no semantic version; \<open>changeFiles\<close> constructs its objects so.
\<close>

theorem unchecked_version_option_counterexample:
  "version (new_Version ''index.js''
      (Some \<lparr>opt_version = Some ''abc'', opt_cmd = None, opt_type = None\<rparr>)) = Some ''abc'' \<and>
   \<not> valid_semver (Some ''abc'') \<and>
   \<not> stored_valid (new_Version ''index.js''
      (Some \<lparr>opt_version = Some ''abc'', opt_cmd = None, opt_type = None\<rparr>)) \<and>
   flight (Version_changeFiles [''index.js''] (Some ''abc'') example_disk) =
     [\<lparr>target = new_Version ''index.js''
                  (Some \<lparr>opt_version = Some ''abc'', opt_cmd = None, opt_type = None\<rparr>),
       phase = Reading\<rparr>]"
  using abc_invalid
  by (simp add: new_Version_fields stored_valid_def Version_changeFiles_def start_task_def)

lemma extract_index_js:
  "Version_extract example_runtime example_disk (new_Version ''index.js'' None) =
     Inr ((None, Some ''1.2.3''), new_Version ''index.js'' None\<lparr>version := Some ''1.2.3''\<rparr>)"
proof -
  let ?obj = "new_Version ''index.js'' None"
  have "path_basename ''index.js'' \<noteq> ''VERSION''"
    by code_simp
  then have t: "opt_type (options ?obj) \<noteq> Some ''VERSION''"
    by (simp add: new_Version_fields)
  have r: "Version_readFile example_runtime example_disk ?obj =
      Inr (JString ''VERSION = 1.2.3; VERSION 1.2.3'')"
    using ext_index_js by (simp add: read_plain new_Version_fields example_disk_def)
  have v: "truthy (semver_valid (Some ''1.2.3''))"
    using valid_1_2_3 by (simp add: valid_semver_def)
  from t r v show ?thesis
    by (simp add: Version_extract_def Version__extract_def typeof_object_def index_js_exec
        Version_setVersion_def)
qed

theorem stored_version_valid_witness:
  "stored_valid (new_Version ''index.js'' None) \<and>
   Version_extract example_runtime example_disk (new_Version ''index.js'' None) =
     Inr ((None, Some ''1.2.3''), new_Version ''index.js'' None\<lparr>version := Some ''1.2.3''\<rparr>) \<and>
   stored_valid (new_Version ''index.js'' None\<lparr>version := Some ''1.2.3''\<rparr>) \<and>
   Version_inc (Some ''major'') (new_Version ''index.js'' None\<lparr>version := Some ''1.2.3''\<rparr>) =
     Inr (Some ''2.0.0'', new_Version ''index.js'' None\<lparr>version := Some ''2.0.0''\<rparr>) \<and>
   stored_valid (new_Version ''index.js'' None\<lparr>version := Some ''2.0.0''\<rparr>) \<and>
   valid_semver (Some ''2.0.0'')"
proof -
  let ?obj = "new_Version ''index.js'' None"
  let ?obj1 = "?obj\<lparr>version := Some ''1.2.3''\<rparr>"
  let ?obj2 = "?obj\<lparr>version := Some ''2.0.0''\<rparr>"
  have s0: "stored_valid ?obj"
    using stored_version_valid [where f = "''index.js''" and opts = None] by simp
  have x: "Version_extract example_runtime example_disk ?obj = Inr ((None, Some ''1.2.3''), ?obj1)"
    by (rule extract_index_js)
  have s1: "stored_valid ?obj1"
    using stored_version_valid [where this = ?obj and rt = example_runtime and d = example_disk
        and ?r2.0 = "(None, Some ''1.2.3'')" and ?x2.0 = ?obj1] x s0
    by blast
  have i: "Version_inc (Some ''major'') ?obj1 = Inr (Some ''2.0.0'', ?obj2)"
    using inc_of_1_2_3 (1) [of ?obj] by simp
  have s2: "stored_valid ?obj2"
    using stored_version_valid [where this = ?obj1 and c = "Some ''major''"
        and ?r3.0 = "Some ''2.0.0''" and ?x3.0 = ?obj2] i s1
    by blast
  have v: "valid_semver (Some ''2.0.0'')"
    using stored_version_valid [where this = ?obj1 and c = "Some ''major''"
        and w = "''2.0.0''" and ?x4.0 = ?obj2] i
    by blast
  from s0 x s1 i s2 v show ?thesis
    by blast
qed

subsection \<open>The shape of a token\<close>

lemma join_split_on: "join_dots (split_on CHR ''.'' s) = s"
proof (induction s)
  case Nil
  then show ?case by simp
next
  case (Cons x xs)
  obtain y ys where y: "split_on CHR ''.'' xs = y # ys"
    using split_on_not_Nil [of "CHR ''.''" xs] by (cases "split_on CHR ''.'' xs") auto
  with Cons show ?case
    by (cases ys) auto
qed

lemma three_numbers_iff:
  "three_numbers m \<longleftrightarrow> (\<exists>a b c. m = a @ CHR ''.'' # b @ CHR ''.'' # c \<and> digits a \<and> digits b \<and> digits c)"
proof
  assume "three_numbers m"
  then obtain a b c where s: "split_on CHR ''.'' m = [a, b, c]" and d: "digits a" "digits b" "digits c"
    by (auto simp: three_numbers_def split: list.splits)
  have "m = join_dots (split_on CHR ''.'' m)"
    by (simp add: join_split_on)
  with s have "m = a @ CHR ''.'' # b @ CHR ''.'' # c"
    by simp
  with d show "\<exists>a b c. m = a @ CHR ''.'' # b @ CHR ''.'' # c \<and> digits a \<and> digits b \<and> digits c"
    by blast
next
  assume "\<exists>a b c. m = a @ CHR ''.'' # b @ CHR ''.'' # c \<and> digits a \<and> digits b \<and> digits c"
  then obtain a b c where m: "m = a @ CHR ''.'' # b @ CHR ''.'' # c" and d: "digits a" "digits b" "digits c"
    by blast
  from d have "CHR ''.'' \<notin> set a" "CHR ''.'' \<notin> set b" "CHR ''.'' \<notin> set c"
    using digits_no_sep by (auto simp: digits_def)
  with m have "split_on CHR ''.'' m = [a, b, c]"
    by (simp add: split_on_append split_on_none)
  with d show "three_numbers m"
    by (simp add: three_numbers_def)
qed

lemma three_numbers_no_dash: "three_numbers m \<Longrightarrow> CHR ''-'' \<notin> set m"
  using digits_no_sep by (auto simp: three_numbers_iff digits_def)

lemma token_shape_plain: "three_numbers m \<Longrightarrow> token_shape m"
  by (simp add: token_shape_def split_first_none three_numbers_no_dash)

lemma token_shape_suffix:
  "three_numbers m \<Longrightarrow> q \<noteq> [] \<Longrightarrow> list_all is_alnum q \<Longrightarrow> token_shape (m @ CHR ''-'' # q)"
  by (simp add: token_shape_def split_first_append three_numbers_no_dash)

lemma token_shape_cases:
  assumes "token_shape t"
  obtains (plain) "three_numbers t"
  | (suffix) m q where "t = m @ CHR ''-'' # q" "three_numbers m" "q \<noteq> []" "list_all is_alnum q"
proof (cases "split_first CHR ''-'' t")
  case (Pair m x)
  show ?thesis
  proof (cases x)
    case None
    with Pair assms split_first_None [of "CHR ''-''" t m] plain show ?thesis
      by (simp add: token_shape_def)
  next
    case (Some q)
    with Pair assms split_first_Some [of "CHR ''-''" t m q] suffix show ?thesis
      by (simp add: token_shape_def)
  qed
qed

lemma digits_takeWhile: "takeWhile is_digit s \<noteq> [] \<Longrightarrow> digits (takeWhile is_digit s)"
  by (auto simp: digits_def list_all_iff dest: set_takeWhileD)

lemma alnum_takeWhile: "list_all is_alnum (takeWhile is_alnum s)"
  by (auto simp: list_all_iff dest: set_takeWhileD)

lemma token_at_shape:
  assumes "token_at s = Some (t, r)"
  shows "token_shape t"
proof -
  let ?d1 = "takeWhile is_digit s"
  obtain x r1 where c1: "dropWhile is_digit s = x # r1"
    using assms by (cases "dropWhile is_digit s") (simp_all add: token_at_def)
  let ?d2 = "takeWhile is_digit r1"
  obtain y r2 where c2: "dropWhile is_digit r1 = y # r2"
    using assms c1 by (cases "dropWhile is_digit r1") (simp_all add: token_at_def)
  let ?d3 = "takeWhile is_digit r2"
  let ?r3 = "dropWhile is_digit r2"
  from assms c1 c2 have ok: "?d1 \<noteq> []" "x = CHR ''.''" "?d2 \<noteq> []" "y = CHR ''.''" "?d3 \<noteq> []"
    by (auto simp: token_at_def Let_def split: if_splits)
  let ?m = "?d1 @ CHR ''.'' # ?d2 @ CHR ''.'' # ?d3"
  have m: "three_numbers ?m"
    using ok digits_takeWhile by (auto simp: three_numbers_iff)
  from assms c1 c2 ok have
    "t = ?m \<or> (\<exists>z r3'. ?r3 = z # r3' \<and> z = CHR ''-'' \<and> takeWhile is_alnum r3' \<noteq> [] \<and>
                  t = ?m @ CHR ''-'' # takeWhile is_alnum r3')"
    by (auto simp: token_at_def Let_def split: if_splits list.splits)
  then show ?thesis
  proof
    assume "t = ?m"
    with m show ?thesis
      by (simp add: token_shape_plain)
  next
    assume "\<exists>z r3'. ?r3 = z # r3' \<and> z = CHR ''-'' \<and> takeWhile is_alnum r3' \<noteq> [] \<and>
                  t = ?m @ CHR ''-'' # takeWhile is_alnum r3'"
    then obtain r3' where "takeWhile is_alnum r3' \<noteq> []" "t = ?m @ CHR ''-'' # takeWhile is_alnum r3'"
      by blast
    with m show ?thesis
      using token_shape_suffix [OF m, of "takeWhile is_alnum r3'"] alnum_takeWhile by simp
  qed
qed

lemma span_digits:
  assumes "digits a" and "\<not> is_digit x"
  shows "takeWhile is_digit (a @ x # r) = a" and "dropWhile is_digit (a @ x # r) = x # r"
  using assms by (simp_all add: digits_def list_all_iff)

lemma dot_dash_not_digit: "\<not> is_digit CHR ''.''" "\<not> is_digit CHR ''-''"
  by (simp_all add: is_digit_def)

lemma token_at_three:
  assumes "digits a" "digits b" "digits c"
  shows "\<exists>t r. token_at (a @ CHR ''.'' # b @ CHR ''.'' # c @ rest) = Some (t, r) \<and>
           length (a @ CHR ''.'' # b @ CHR ''.'' # c) \<le> length t"
proof -
  have c: "takeWhile is_digit (c @ rest) = c @ takeWhile is_digit rest"
    "dropWhile is_digit (c @ rest) = dropWhile is_digit rest"
    using assms(3) by (simp_all add: digits_def list_all_iff)
  have ne: "a \<noteq> []" "b \<noteq> []" "c \<noteq> []"
    using assms by (simp_all add: digits_def)
  show ?thesis
    using ne
    by (simp add: token_at_def Let_def span_digits [OF assms(1) dot_dash_not_digit(1)]
        span_digits [OF assms(2) dot_dash_not_digit(1)] c split: list.splits)
qed

lemma token_at_suffix:
  assumes "digits a" "digits b" "digits c" "q \<noteq> []" "list_all is_alnum q"
  shows "\<exists>t r. token_at (a @ CHR ''.'' # b @ CHR ''.'' # c @ CHR ''-'' # q @ rest) = Some (t, r) \<and>
           length (a @ CHR ''.'' # b @ CHR ''.'' # c @ CHR ''-'' # q) \<le> length t"
proof -
  have q: "takeWhile is_alnum (q @ rest) = q @ takeWhile is_alnum rest"
    using assms(5) by (simp add: list_all_iff)
  have ne: "a \<noteq> []" "b \<noteq> []" "c \<noteq> []"
    using assms by (simp_all add: digits_def)
  show ?thesis
    using ne assms(4)
    by (simp add: token_at_def Let_def span_digits [OF assms(1) dot_dash_not_digit(1)]
        span_digits [OF assms(2) dot_dash_not_digit(1)]
        span_digits [OF assms(3) dot_dash_not_digit(2)] q)
qed

lemma token_at_longest:
  assumes "token_shape t'"
  shows "\<exists>t r. token_at (t' @ rest) = Some (t, r) \<and> length t' \<le> length t"
  using assms
proof (cases rule: token_shape_cases)
  case plain
  then obtain a b c where "t' = a @ CHR ''.'' # b @ CHR ''.'' # c" "digits a" "digits b" "digits c"
    by (auto simp: three_numbers_iff)
  with token_at_three [of a b c rest] show ?thesis
    by simp
next
  case (suffix m q)
  from suffix(2) obtain a b c where "m = a @ CHR ''.'' # b @ CHR ''.'' # c" "digits a" "digits b" "digits c"
    by (auto simp: three_numbers_iff)
  with token_at_suffix [of a b c q rest] suffix show ?thesis
    by simp
qed

subsection \<open>The first match\<close>

lemma token_at_Nil: "token_at [] = None"
  by (simp add: token_at_def)

lemma match_here_Nil: "match_here prev [] = None"
  by (simp add: match_here_def)

lemma lazy_gap_sound:
  "lazy_gap s = Some (g, t, r) \<Longrightarrow>
     list_all (\<lambda>c. \<not> is_line_terminator c) g \<and> token_at (t @ r) = Some (t, r) \<and> s = g @ t @ r"
proof (induction s arbitrary: g)
  case Nil
  then show ?case by simp
next
  case (Cons c cs)
  show ?case
  proof (cases "token_at (c # cs)")
    case None
    with Cons.prems obtain g' where g': "lazy_gap cs = Some (g', t, r)" "g = c # g'"
      and c: "\<not> is_line_terminator c"
      by (auto split: if_splits option.splits)
    with Cons.IH [OF g'(1)] show ?thesis by simp
  next
    case (Some p)
    with Cons.prems have g: "g = []" and tk: "token_at (c # cs) = Some (t, r)"
      by (auto split: prod.splits)
    from token_at_split [OF tk] have "c # cs = t @ r" .
    with g tk show ?thesis by simp
  qed
qed

lemma lazy_gap_minimal:
  "lazy_gap (g' @ s') = Some (g, t, r) \<Longrightarrow> token_at s' \<noteq> None \<Longrightarrow> length g \<le> length g'"
proof (induction g' arbitrary: g)
  case Nil
  then have "s' \<noteq> []"
    using token_at_Nil by auto
  then obtain c cs where "s' = c # cs"
    by (cases s') auto
  with Nil show ?case
    by (auto split: option.splits)
next
  case (Cons c g'')
  show ?case
  proof (cases "token_at (c # g'' @ s')")
    case None
    with Cons.prems(1) obtain g0 where "lazy_gap (g'' @ s') = Some (g0, t, r)" "g = c # g0"
      by (auto split: if_splits option.splits)
    with Cons.IH [OF _ Cons.prems(2)] show ?thesis by simp
  next
    case (Some p)
    with Cons.prems(1) have "g = []"
      by (auto split: prod.splits)
    then show ?thesis by simp
  qed
qed

lemma lazy_gap_complete:
  "list_all (\<lambda>c. \<not> is_line_terminator c) g' \<Longrightarrow> token_at s' \<noteq> None \<Longrightarrow>
     lazy_gap (g' @ s') \<noteq> None"
proof (induction g')
  case Nil
  then have "s' \<noteq> []"
    using token_at_Nil by auto
  then obtain c cs where "s' = c # cs"
    by (cases s') auto
  with Nil show ?case
    by (auto split: option.splits)
next
  case (Cons c g'')
  then show ?case
    by (auto split: option.splits)
qed

lemma prev_of_Cons: "prev_of prev (c # b) = prev_of (Some c) b"
  by (simp add: prev_of_def)

lemma exec_from_sound:
  "exec_from prev s = Some (b, g1, t, a) \<Longrightarrow>
     match_here (prev_of prev b) (g1 @ t @ a) = Some (g1, t, a) \<and> s = b @ g1 @ t @ a"
proof (induction s arbitrary: prev b)
  case Nil
  then show ?case by simp
next
  case (Cons c cs)
  show ?case
  proof (cases "match_here prev (c # cs)")
    case None
    with Cons.prems obtain b' where b': "exec_from (Some c) cs = Some (b', g1, t, a)" "b = c # b'"
      by (auto split: option.splits)
    from Cons.IH [OF b'(1)] b'(2) show ?thesis
      by (simp add: prev_of_Cons)
  next
    case (Some p)
    with Cons.prems have b: "b = []" and m: "match_here prev (c # cs) = Some (g1, t, a)"
      by (auto split: prod.splits)
    from match_here_split [OF m] have "c # cs = g1 @ t @ a" .
    with b m show ?thesis
      by (simp add: prev_of_def)
  qed
qed

lemma exec_from_leftmost:
  "exec_from prev (b' @ s') = Some (b, g1, t, a) \<Longrightarrow> match_here (prev_of prev b') s' \<noteq> None \<Longrightarrow>
     length b \<le> length b'"
proof (induction b' arbitrary: prev b)
  case Nil
  then have "s' \<noteq> []"
    using match_here_Nil by (auto simp: prev_of_def)
  then obtain c cs where "s' = c # cs"
    by (cases s') auto
  with Nil show ?case
    by (auto simp: prev_of_def split: option.splits)
next
  case (Cons c b'')
  show ?case
  proof (cases "match_here prev (c # b'' @ s')")
    case None
    with Cons.prems(1) obtain b0 where b0: "exec_from (Some c) (b'' @ s') = Some (b0, g1, t, a)" "b = c # b0"
      by (auto split: option.splits)
    from Cons.prems(2) have "match_here (prev_of (Some c) b'') s' \<noteq> None"
      by (simp add: prev_of_Cons)
    from Cons.IH [OF b0(1) this] b0(2) show ?thesis by simp
  next
    case (Some p)
    with Cons.prems(1) have "b = []"
      by (auto split: prod.splits)
    then show ?thesis by simp
  qed
qed

lemma exec_from_complete:
  "match_here (prev_of prev b') s' \<noteq> None \<Longrightarrow> exec_from prev (b' @ s') \<noteq> None"
proof (induction b' arbitrary: prev)
  case Nil
  then have "s' \<noteq> []"
    using match_here_Nil by (auto simp: prev_of_def)
  then obtain c cs where "s' = c # cs"
    by (cases s') auto
  with Nil show ?case
    by (auto simp: prev_of_def split: option.splits)
next
  case (Cons c b'')
  from Cons.prems have "match_here (prev_of (Some c) b'') s' \<noteq> None"
    by (simp add: prev_of_Cons)
  from Cons.IH [OF this] show ?case
    by (auto split: option.splits)
qed

lemma match_here_facts:
  assumes "match_here p (g1 @ t @ a) = Some (g1, t, a)"
  shows "take 7 g1 = ''VERSION''"
    and "lazy_gap (drop 7 g1 @ t @ a) = Some (drop 7 g1, t, a)"
    and "case p of None \<Rightarrow> True | Some c \<Rightarrow> \<not> is_word c"
    and "case drop 7 g1 @ t @ a of [] \<Rightarrow> True | c # _ \<Rightarrow> \<not> is_word c"
proof -
  let ?s = "g1 @ t @ a"
  from assms have c: "(case p of None \<Rightarrow> True | Some c \<Rightarrow> \<not> is_word c)"
    "take 7 ?s = ''VERSION''" "(case drop 7 ?s of [] \<Rightarrow> True | c # _ \<Rightarrow> \<not> is_word c)"
    by (simp_all add: match_here_def split: if_splits)
  from assms c obtain g where g: "lazy_gap (drop 7 ?s) = Some (g, t, a)" "g1 = ''VERSION'' @ g"
    by (auto simp: match_here_def split: option.splits)
  from g(2) have d: "drop 7 ?s = drop 7 g1 @ t @ a" "drop 7 g1 = g" "take 7 g1 = ''VERSION''"
    by simp_all
  from d(3) show "take 7 g1 = ''VERSION''" .
  from g(1) d show "lazy_gap (drop 7 g1 @ t @ a) = Some (drop 7 g1, t, a)"
    by simp
  from c(1) show "case p of None \<Rightarrow> True | Some c \<Rightarrow> \<not> is_word c" .
  from c(3) d(1) show "case drop 7 g1 @ t @ a of [] \<Rightarrow> True | c # _ \<Rightarrow> \<not> is_word c"
    by simp
qed

lemma match_here_of_match:
  assumes "VERSION_match b' g' t' a'"
  shows "match_here (prev_of None b') (''VERSION'' @ g' @ t' @ a') \<noteq> None"
proof -
  from assms have tk: "token_shape t'" and lt: "list_all (\<lambda>c. \<not> is_line_terminator c) g'"
    and bf: "b' = [] \<or> \<not> is_word (last b')"
    and af: "case g' @ t' @ a' of [] \<Rightarrow> True | c # _ \<Rightarrow> \<not> is_word c"
    by (simp_all add: VERSION_match_def)
  from token_at_longest [OF tk, of a'] have "token_at (t' @ a') \<noteq> None"
    by auto
  from lazy_gap_complete [OF lt this] obtain g t r where "lazy_gap (g' @ t' @ a') = Some (g, t, r)"
    by auto
  moreover from bf have "case prev_of None b' of None \<Rightarrow> True | Some c \<Rightarrow> \<not> is_word c"
    by (auto simp: prev_of_def)
  ultimately show ?thesis
    using af by (simp add: match_here_def)
qed

lemma exec_is_match:
  assumes "VERSION_exec s = Some (b, g1, t, a)"
  shows "s = b @ g1 @ t @ a \<and> take 7 g1 = ''VERSION'' \<and> VERSION_match b (drop 7 g1) t a"
proof -
  from assms have m: "match_here (prev_of None b) (g1 @ t @ a) = Some (g1, t, a)" and s: "s = b @ g1 @ t @ a"
    using exec_from_sound [of None s b g1 t a] by (simp_all add: VERSION_exec_def)
  note f = match_here_facts [OF m]
  from lazy_gap_sound [OF f(2)] have lt: "list_all (\<lambda>c. \<not> is_line_terminator c) (drop 7 g1)"
    and tk: "token_at (t @ a) = Some (t, a)"
    by simp_all
  from f(3) have "b = [] \<or> \<not> is_word (last b)"
    by (auto simp: prev_of_def split: if_splits)
  with f(4) lt token_at_shape [OF tk] have "VERSION_match b (drop 7 g1) t a"
    by (simp add: VERSION_match_def)
  with s f(1) show ?thesis
    by simp
qed

lemma exec_priority:
  assumes "VERSION_exec s = Some (b, g1, t, a)"
    and "s = b' @ ''VERSION'' @ g' @ t' @ a'"
    and "VERSION_match b' g' t' a'"
  shows "length b < length b' \<or>
         (length b = length b' \<and>
            (length g1 < 7 + length g' \<or> (length g1 = 7 + length g' \<and> length t' \<le> length t)))"
proof -
  from assms(1) have m: "match_here (prev_of None b) (g1 @ t @ a) = Some (g1, t, a)" and s: "s = b @ g1 @ t @ a"
    using exec_from_sound [of None s b g1 t a] by (simp_all add: VERSION_exec_def)
  note f = match_here_facts [OF m]
  from assms(3) have tk': "token_shape t'"
    by (simp add: VERSION_match_def)
  have le: "length b \<le> length b'"
    using exec_from_leftmost [of None b' "''VERSION'' @ g' @ t' @ a'" b g1 t a]
      match_here_of_match [OF assms(3)] assms(1,2)
    by (simp add: VERSION_exec_def)
  show ?thesis
  proof (cases "length b = length b'")
    case False
    with le show ?thesis by simp
  next
    case True
    with s assms(2) have bb: "b = b'" and rest: "g1 @ t @ a = ''VERSION'' @ g' @ t' @ a'"
      by (simp_all add: append_eq_append_conv)
    from f(1) have g1: "g1 = ''VERSION'' @ drop 7 g1"
      by (metis append_take_drop_id)
    from rest g1 have r2: "drop 7 g1 @ t @ a = g' @ t' @ a'"
      by (metis append.assoc same_append_eq)
    from token_at_longest [OF tk', of a'] obtain t2 r2' where
      t2: "token_at (t' @ a') = Some (t2, r2')" "length t' \<le> length t2"
      by blast
    from f(2) r2 have lg: "lazy_gap (g' @ t' @ a') = Some (drop 7 g1, t, a)"
      by simp
    from lazy_gap_minimal [OF lg] t2(1) have gle: "length (drop 7 g1) \<le> length g'"
      by simp
    have l7: "7 \<le> length g1"
      using arg_cong [OF f(1), of length] by simp
    show ?thesis
    proof (cases "length (drop 7 g1) = length g'")
      case False
      with gle l7 True show ?thesis by auto
    next
      case True
      with r2 have "drop 7 g1 = g'" "t @ a = t' @ a'"
        by (simp_all add: append_eq_append_conv)
      with lazy_gap_sound [OF f(2)] t2 have "t2 = t"
        by simp
      with t2(2) True l7 \<open>length b = length b'\<close> show ?thesis
        by auto
    qed
  qed
qed

lemma exec_complete:
  assumes "s = b' @ ''VERSION'' @ g' @ t' @ a'" and "VERSION_match b' g' t' a'"
  shows "VERSION_exec s \<noteq> None"
  using exec_from_complete [OF match_here_of_match [OF assms(2)]] assms(1)
  by (simp add: VERSION_exec_def)

lemma extract_pattern:
  assumes "path_extname (file_path this) \<noteq> ''.json''"
    and "opt_type (options this) \<noteq> Some ''VERSION''"
    and "files d (file_path this) = Some s"
  shows "Version_extract rt d this =
     (case VERSION_exec s of
        None \<Rightarrow> Inr ((Some BadSemver, None), this\<lparr>version := None\<rparr>)
      | Some (b, g1, t, a) \<Rightarrow>
          if valid_semver (Some t) then Inr ((None, Some t), this\<lparr>version := Some t\<rparr>)
          else Inr ((Some BadSemver, None), this\<lparr>version := None\<rparr>))"
proof -
  have n: "\<not> truthy (semver_valid None)"
    by (simp add: semver_valid_def semver_parse_def truthy_def)
  from assms n show ?thesis
    by (simp add: Version_extract_def read_plain Version__extract_def typeof_object_def
        Version_setVersion_def valid_semver_def split: option.splits)
qed

subsection \<open>Extracting from a file that holds the pattern\<close>

text \<open>
  C6, with the gap on one line. For a file that is neither read as JSON nor of type \<open>VERSION\<close>, \<open>extract\<close>
  returns and stores the token of the match that \<open>VERSION.exec\<close> finds, if that token is a
  valid version, and else returns the error with the stored version absent. The match is
  the word \<open>VERSION\<close> between word boundaries, a gap without a line terminator, and a token
  of the shape \<open>\d+\.\d+\.\d+\<close> with an optional \<open>-\<close> and alphanumerics. Of all such places in the
  text it is the first: it starts leftmost, its gap is the shortest there, and its token
  the longest there. Where the text has such a place, \<open>exec\<close> finds a match.
\<close>

theorem extract_first_match_on_a_line:
  assumes "path_extname (file_path this) \<noteq> ''.json''"
    and "opt_type (options this) \<noteq> Some ''VERSION''"
    and "files d (file_path this) = Some s"
  shows "Version_extract rt d this =
     (case VERSION_exec s of
        None \<Rightarrow> Inr ((Some BadSemver, None), this\<lparr>version := None\<rparr>)
      | Some (b, g1, t, a) \<Rightarrow>
          if valid_semver (Some t) then Inr ((None, Some t), this\<lparr>version := Some t\<rparr>)
          else Inr ((Some BadSemver, None), this\<lparr>version := None\<rparr>)) \<and>
   (VERSION_exec s = Some (b, g1, t, a) \<longrightarrow>
      s = b @ g1 @ t @ a \<and> take 7 g1 = ''VERSION'' \<and> VERSION_match b (drop 7 g1) t a) \<and>
   (VERSION_exec s = Some (b, g1, t, a) \<and> s = b' @ ''VERSION'' @ g' @ t' @ a' \<and>
    VERSION_match b' g' t' a' \<longrightarrow>
      length b < length b' \<or>
      (length b = length b' \<and>
         (length g1 < 7 + length g' \<or> (length g1 = 7 + length g' \<and> length t' \<le> length t)))) \<and>
   (s = b' @ ''VERSION'' @ g' @ t' @ a' \<and> VERSION_match b' g' t' a' \<longrightarrow> VERSION_exec s \<noteq> None)"
  using extract_pattern [OF assms] exec_is_match [of s b g1 t a]
    exec_priority [of s b g1 t a b' g' t' a'] exec_complete [of s b' g' t' a']
  by blast

lemma second_match: "VERSION_match ''VERSION = 1.2.3; '' '' '' ''1.2.3'' []"
  by code_simp

theorem extract_first_match_on_a_line_witness:
  "files example_disk ''index.js'' = Some ''VERSION = 1.2.3; VERSION 1.2.3'' \<and>
   VERSION_exec ''VERSION = 1.2.3; VERSION 1.2.3'' =
     Some ([], ''VERSION = '', ''1.2.3'', ''; VERSION 1.2.3'') \<and>
   VERSION_match ''VERSION = 1.2.3; '' '' '' ''1.2.3'' [] \<and>
   VERSION_match [] '' = '' ''1.2.3'' ''; VERSION 1.2.3'' \<and>
   valid_semver (Some ''1.2.3'') \<and>
   Version_extract example_runtime example_disk (new_Version ''index.js'' None) =
     Inr ((None, Some ''1.2.3''), new_Version ''index.js'' None\<lparr>version := Some ''1.2.3''\<rparr>) \<and>
   length ([] :: string) < length ''VERSION = 1.2.3; ''"
proof -
  let ?obj = "new_Version ''index.js'' None"
  let ?s = "''VERSION = 1.2.3; VERSION 1.2.3''"
  have "path_basename ''index.js'' \<noteq> ''VERSION''"
    by code_simp
  then have t: "opt_type (options ?obj) \<noteq> Some ''VERSION''"
    by (simp add: new_Version_fields)
  have e: "path_extname (file_path ?obj) \<noteq> ''.json''"
    using ext_index_js by (simp add: new_Version_fields)
  have c: "files example_disk (file_path ?obj) = Some ?s"
    by (simp add: new_Version_fields example_disk_def)
  have d: "?s = ''VERSION = 1.2.3; '' @ ''VERSION'' @ '' '' @ ''1.2.3'' @ []"
    by simp
  note th = extract_first_match_on_a_line [OF e t c, of example_runtime "[]" "''VERSION = ''"
      "''1.2.3''" "''; VERSION 1.2.3''" "''VERSION = 1.2.3; ''" "'' ''" "''1.2.3''" "[]"]
  from th index_js_exec valid_1_2_3
  have x: "Version_extract example_runtime example_disk ?obj =
      Inr ((None, Some ''1.2.3''), ?obj\<lparr>version := Some ''1.2.3''\<rparr>)"
    by simp
  from th index_js_exec have m: "VERSION_match [] (drop 7 ''VERSION = '') ''1.2.3'' ''; VERSION 1.2.3''"
    by blast
  from th index_js_exec d second_match
  have l: "length ([] :: string) < length ''VERSION = 1.2.3; '' \<or>
      (length ([] :: string) = length ''VERSION = 1.2.3; '' \<and>
         (length ''VERSION = '' < 7 + length '' '' \<or>
           (length ''VERSION = '' = 7 + length '' '' \<and> length ''1.2.3'' \<le> length ''1.2.3'')))"
    by blast
  from c x m l index_js_exec second_match valid_1_2_3 show ?thesis
    by (simp add: new_Version_fields)
qed

lemma leading_zero_token:
  "VERSION_exec ''VERSION 01.2.3'' = Some ([], ''VERSION '', ''01.2.3'', []) \<and>
   \<not> valid_semver (Some ''01.2.3'')"
  by code_simp

lemma notes_exec: "VERSION_exec (''VERSION'' @ [CHR 0x0A] @ ''1.2.3'') = None"
  by code_simp

text \<open>
  C6 does not hold across a line break: in \<open>notes.txt\<close> the word \<open>VERSION\<close> is followed by a
  line feed and the token \<open>1.2.3\<close>; the pattern does not match and \<open>extract\<close> finds no version.
\<close>

theorem line_break_counterexample:
  "files example_disk ''notes.txt'' = Some (''VERSION'' @ [CHR 0x0A] @ ''1.2.3'') \<and>
   is_line_terminator (CHR 0x0A) \<and>
   token_shape ''1.2.3'' \<and>
   VERSION_exec (''VERSION'' @ [CHR 0x0A] @ ''1.2.3'') = None \<and>
   Version_extract example_runtime example_disk (new_Version ''notes.txt'' None) =
     Inr ((Some BadSemver, None), new_Version ''notes.txt'' None)"
proof -
  let ?obj = "new_Version ''notes.txt'' None"
  have "path_basename ''notes.txt'' \<noteq> ''VERSION''"
    by code_simp
  then have t: "opt_type (options ?obj) \<noteq> Some ''VERSION''"
    by (simp add: new_Version_fields)
  have "path_extname ''notes.txt'' \<noteq> ''.json''"
    by code_simp
  then have e: "path_extname (file_path ?obj) \<noteq> ''.json''"
    by (simp add: new_Version_fields)
  have c: "files example_disk (file_path ?obj) = Some (''VERSION'' @ [CHR 0x0A] @ ''1.2.3'')"
    by (simp add: new_Version_fields example_disk_def)
  have l: "is_line_terminator (CHR 0x0A)"
    by (simp add: is_line_terminator_def)
  have k: "token_shape ''1.2.3''"
    by code_simp
  have v: "?obj\<lparr>version := None\<rparr> = ?obj"
    by (simp add: new_Version_def Let_def)
  from extract_pattern [OF e t c, of example_runtime] notes_exec v
  have "Version_extract example_runtime example_disk ?obj = Inr ((Some BadSemver, None), ?obj)"
    by simp
  with c l k notes_exec show ?thesis
    by (simp add: new_Version_fields)
qed

end
